theory Spec2Isabelle
  imports Main
begin

section \<open>Values, objects and the store\<close>

text \<open>
  A model of the state machine of \<^verbatim>\<open>src/index.ts\<close>: the classes
  \<^verbatim>\<open>MachineConfiguration\<close> and \<^verbatim>\<open>MachineInstance\<close>, method by method. What the model
  takes for granted:
  \<^item> The context is an object of type \<^verbatim>\<open>Record<string, any>\<close>. Its values are those of
    the universe below; numbers (IEEE doubles), dates, maps and functions are left out.
  \<^item> An object is the list of its own enumerable properties in the order in which
    \<^verbatim>\<open>for ... in\<close> and \<^verbatim>\<open>JSON.stringify\<close> enumerate them: the keys that are array
    indices first, in ascending order, then the other keys in the order in which they
    were created.
  \<^item> The tables of states and of event handlers are plain objects: a lookup
    \<^verbatim>\<open>table[name]\<close> finds the own properties of the table and, for a name that is
    not one of them, what the table inherits from \<^verbatim>\<open>Object.prototype\<close>. The
    context is read by the machine only under the keys of the guards, which are fields
    of the context (the type of the guards says so): there the model reads the own
    properties of the context.
  \<^item> Hooks, actions, guard predicates and subscribers are functions of the user. They
    return and do not call back into the machine; hooks and actions change nothing but
    the context they are given; guard predicates and subscribers change nothing.
  \<^item> Time is not modelled: a timer that was set is pending until the host fires it.
\<close>

datatype jsval =
    JUndefined
  | JNull
  | JBool bool
  | JStr string
  | JArr "jsval list"
  | JObj "(string \<times> jsval) list"

type_synonym fields = "(string \<times> jsval) list"

text \<open>\<^verbatim>\<open>o[k]\<close>: reading a property that is absent gives \<^verbatim>\<open>undefined\<close>.\<close>

definition get_field :: "fields \<Rightarrow> string \<Rightarrow> jsval" where
  "get_field fs k = (case map_of fs k of None \<Rightarrow> JUndefined | Some v \<Rightarrow> v)"

text \<open>
  A key is an array index when it is the decimal numeral, without leading zeros, of a
  number below \<^verbatim>\<open>2^32 - 1\<close>. \<open>comes_before k k'\<close>: in the enumeration of the
  properties of an object, a new key \<open>k\<close> is placed before the existing key \<open>k'\<close>.
\<close>

definition index_value :: "string \<Rightarrow> nat" where
  "index_value k = foldl (\<lambda>n c. 10 * n + (of_char c - 48)) 0 k"

definition is_array_index :: "string \<Rightarrow> bool" where
  "is_array_index k \<longleftrightarrow>
     k \<noteq> [] \<and> list_all (\<lambda>c. c \<in> set ''0123456789'') k
     \<and> (if hd k = CHR ''0'' then k = ''0'' else True)
     \<and> index_value k < 4294967295"

definition comes_before :: "string \<Rightarrow> string \<Rightarrow> bool" where
  "comes_before k k' \<longleftrightarrow>
     is_array_index k \<and> (if is_array_index k' then index_value k < index_value k' else True)"

text \<open>
  \<^verbatim>\<open>o[k] = v\<close>: an existing property keeps its place. A new property whose key is
  an array index goes after the smaller indices and before every other property; a new
  property with any other key goes last.
\<close>

fun assign :: "fields \<Rightarrow> string \<Rightarrow> jsval \<Rightarrow> fields" where
  "assign [] k v = [(k, v)]"
| "assign ((k', v') # fs) k v =
     (if k' = k then (k, v) # fs
      else if comes_before k k' \<and> k \<notin> fst ` set fs then (k, v) # (k', v') # fs
      else (k', v') # assign fs k v)"

subsection \<open>\<^verbatim>\<open>JSON.stringify\<close>\<close>

text \<open>
  \<^verbatim>\<open>JSON.stringify\<close> without replacer and indentation, after ECMA-262
  (SerializeJSONProperty, SerializeJSONObject, SerializeJSONArray, QuoteJSONString):
  \<^verbatim>\<open>undefined\<close> has no serialisation (\<open>None\<close>), a property whose value has none is
  skipped, an array element that has none is printed as \<^verbatim>\<open>null\<close>.
\<close>

definition hex_digit :: "nat \<Rightarrow> char" where
  "hex_digit n = ''0123456789abcdef'' ! (n mod 16)"

definition UnicodeEscape :: "char \<Rightarrow> string" where
  "UnicodeEscape c =
     [CHR 0x5C, CHR ''u'', CHR ''0'', CHR ''0'',
      hex_digit ((of_char c :: nat) div 16), hex_digit ((of_char c :: nat) mod 16)]"

definition quote_char :: "char \<Rightarrow> string" where
  "quote_char c =
     (if c = CHR 0x08 then [CHR 0x5C, CHR ''b'']
      else if c = CHR 0x09 then [CHR 0x5C, CHR ''t'']
      else if c = CHR 0x0A then [CHR 0x5C, CHR ''n'']
      else if c = CHR 0x0C then [CHR 0x5C, CHR ''f'']
      else if c = CHR 0x0D then [CHR 0x5C, CHR ''r'']
      else if c = CHR 0x22 then [CHR 0x5C, CHR 0x22]
      else if c = CHR 0x5C then [CHR 0x5C, CHR 0x5C]
      else if (of_char c :: nat) < 32 then UnicodeEscape c
      else [c])"

definition QuoteJSONString :: "string \<Rightarrow> string" where
  "QuoteJSONString s = CHR 0x22 # concat (map quote_char s) @ [CHR 0x22]"

fun join_comma :: "string list \<Rightarrow> string" where
  "join_comma [] = []"
| "join_comma [s] = s"
| "join_comma (s # t # ss) = s @ '','' @ join_comma (t # ss)"

fun SerializeJSONProperty :: "jsval \<Rightarrow> string option"
  and SerializeJSONArray_elems :: "jsval list \<Rightarrow> string list"
  and SerializeJSONObject_members :: "(string \<times> jsval) list \<Rightarrow> string list"
where
  "SerializeJSONProperty JUndefined = None"
| "SerializeJSONProperty JNull = Some ''null''"
| "SerializeJSONProperty (JBool b) = Some (if b then ''true'' else ''false'')"
| "SerializeJSONProperty (JStr s) = Some (QuoteJSONString s)"
| "SerializeJSONProperty (JArr xs) =
     Some (''['' @ join_comma (SerializeJSONArray_elems xs) @ '']'')"
| "SerializeJSONProperty (JObj fs) =
     Some (''{'' @ join_comma (SerializeJSONObject_members fs) @ ''}'')"
| "SerializeJSONArray_elems [] = []"
| "SerializeJSONArray_elems (x # xs) =
     (case SerializeJSONProperty x of None \<Rightarrow> ''null'' | Some s \<Rightarrow> s)
       # SerializeJSONArray_elems xs"
| "SerializeJSONObject_members [] = []"
| "SerializeJSONObject_members ((k, v) # fs) =
     (case SerializeJSONProperty v of
        None \<Rightarrow> SerializeJSONObject_members fs
      | Some s \<Rightarrow> (QuoteJSONString k @ '':'' @ s) # SerializeJSONObject_members fs)"

definition JSON_stringify :: "fields option \<Rightarrow> string option" where
  "JSON_stringify c =
     (case c of None \<Rightarrow> None | Some fs \<Rightarrow> SerializeJSONProperty (JObj fs))"

subsection \<open>The store of context objects\<close>

text \<open>
  A context object has an identity: the configuration, every instance and every
  subscriber hold a reference to one. The store maps the address of a context object to
  its properties; nested values are owned by the object that holds them, so copying the
  properties of a cell into a fresh cell is a deep copy. \<open>next_addr\<close> is the first
  address never allocated.
\<close>

type_synonym addr = nat

record store =
  cells :: "addr \<Rightarrow> fields"
  next_addr :: addr

definition set_cell :: "store \<Rightarrow> addr \<Rightarrow> fields \<Rightarrow> store" where
  "set_cell h a fs = h\<lparr>cells := (cells h)(a := fs)\<rparr>"

definition alloc :: "store \<Rightarrow> fields \<Rightarrow> addr \<times> store" where
  "alloc h fs =
     (next_addr h, \<lparr>cells = (cells h)(next_addr h := fs), next_addr = Suc (next_addr h)\<rparr>)"

text \<open>
  \<^verbatim>\<open>structuredClone(x)\<close> on a reference to a context object allocates a new object
  holding a copy of the whole value; \<^verbatim>\<open>structuredClone(undefined)\<close> is
  \<^verbatim>\<open>undefined\<close>.
\<close>

definition structuredClone :: "store \<Rightarrow> addr option \<Rightarrow> addr option \<times> store" where
  "structuredClone h r =
     (case r of
        None \<Rightarrow> (None, h)
      | Some a \<Rightarrow> (case alloc h (cells h a) of (b, h') \<Rightarrow> (Some b, h')))"

section \<open>State definitions\<close>

text \<open>
  \<^verbatim>\<open>TStateObject\<close>. Hooks and actions mutate the context object they are given in
  place; they are modelled by the function from the properties of the context before
  the call to its properties after the call. The handlers of \<^verbatim>\<open>on\<close> and of
  \<^verbatim>\<open>after\<close> have the same shape; an \<^verbatim>\<open>after\<close> action is called without data,
  that is with \<^verbatim>\<open>undefined\<close>. The callbacks are taken to return normally and not
  to call back into the machine.
\<close>

type_synonym hook = "fields \<Rightarrow> fields"
type_synonym action_fn = "fields \<Rightarrow> jsval \<Rightarrow> fields"

record event_object =
  target :: "string option"
  action :: "action_fn option"

record state_object =
  entry :: "hook option"
  exit :: "hook option"
  on :: "(string \<times> event_object) list option"
  after :: "(string \<times> event_object) list option"

type_synonym states_table = "(string \<times> state_object) list"
type_synonym guard_table = "(string \<times> (fields \<Rightarrow> bool)) list"

text \<open>A property key that is \<^verbatim>\<open>undefined\<close> is looked up as the string "undefined".\<close>

fun prop_key :: "string option \<Rightarrow> string" where
  "prop_key None = ''undefined''"
| "prop_key (Some s) = s"

text \<open>
  Truthiness of an optional state identifier, as tested by \<^verbatim>\<open>target && ...\<close>:
  \<^verbatim>\<open>undefined\<close> and the empty string are falsy.
\<close>

definition truthy :: "string option \<Rightarrow> bool" where
  "truthy t = (case t of None \<Rightarrow> False | Some s \<Rightarrow> s \<noteq> [])"

text \<open>
  The tables of a configuration are written as object literals, so they inherit the
  properties of \<^verbatim>\<open>Object.prototype\<close> (ECMA-262 with its Annex B, as Node.js and
  the browsers have it): eleven functions and the accessor \<^verbatim>\<open>__proto__\<close>, whose
  value is \<^verbatim>\<open>Object.prototype\<close> itself. Each of these
  values is truthy, and none of them has a property \<^verbatim>\<open>entry\<close>, \<^verbatim>\<open>exit\<close>,
  \<^verbatim>\<open>on\<close>, \<^verbatim>\<open>after\<close>, \<^verbatim>\<open>target\<close> or \<^verbatim>\<open>action\<close>: read as a state
  definition or as an event handler, an inherited value is one that has none of the
  optional properties.
\<close>

definition Object_prototype :: "string list" where
  "Object_prototype =
     [''constructor'', ''__defineGetter__'', ''__defineSetter__'', ''hasOwnProperty'',
      ''__lookupGetter__'', ''__lookupSetter__'', ''isPrototypeOf'', ''propertyIsEnumerable'',
      ''toString'', ''valueOf'', ''__proto__'', ''toLocaleString'']"

definition inherited_state :: state_object where
  "inherited_state = \<lparr>entry = None, exit = None, on = None, after = None\<rparr>"

definition inherited_handler :: event_object where
  "inherited_handler = \<lparr>target = None, action = None\<rparr>"

text \<open>
  \<^verbatim>\<open>table[name]\<close>: the own property of that name, else the inherited one, else
  \<^verbatim>\<open>undefined\<close> (\<open>None\<close>). \<open>inherited_value\<close> is how an inherited value reads
  at the type of the entries.
\<close>

definition table_get :: "'a \<Rightarrow> (string \<times> 'a) list \<Rightarrow> string \<Rightarrow> 'a option" where
  "table_get inherited_value table name =
     (case map_of table name of
        Some v \<Rightarrow> Some v
      | None \<Rightarrow> if name \<in> set Object_prototype then Some inherited_value else None)"

section \<open>The machine instance\<close>

text \<open>
  The source throws \<^verbatim>\<open>Error\<close> with three messages: "State ... does not exist on the
  machine" (\<open>UnknownState\<close>), "State ... does not have any event"
  (\<open>MissingEventTable\<close>) and "State ... does not have event ..." (\<open>UnknownEvent\<close>).
  \<open>TypeError\<close> is what the language raises when a property of \<^verbatim>\<open>undefined\<close> is read
  or written, as \<^verbatim>\<open>this.stateObject.exit\<close> is on an instance whose current state
  definition is \<^verbatim>\<open>undefined\<close>.
\<close>

datatype error = UnknownState | MissingEventTable | UnknownEvent | TypeError

datatype event_type = State_Change | Context_Change

text \<open>
  The fields of \<^verbatim>\<open>MachineInstance\<close>. A subscriber is a function reference, modelled
  by a number that stands for its identity.
\<close>

record machine_instance =
  statesImplementation :: states_table
  initialState :: "string option"
  context_ref :: "addr option"
  guards :: "guard_table option"
  stateID :: "string option"
  stateObject :: "state_object option"
  subscribers :: "nat list"

definition MachineInstance ::
  "states_table \<Rightarrow> string option \<Rightarrow> addr option \<Rightarrow> guard_table option \<Rightarrow> machine_instance" where
  "MachineInstance impl init c gs =
     \<lparr>statesImplementation = impl, initialState = init, context_ref = c, guards = gs,
      stateID = init, stateObject = table_get inherited_state impl (prop_key init),
      subscribers = []\<rparr>"

text \<open>
  The calls an instance makes into its environment, in the order it makes them: a hook
  call is recorded with the current-state identifier at the moment of the call, a guard
  call with the guarded key and the context it is given, a subscriber call with the
  subscriber, the event type and the snapshot (state identifier and the context as it is
  at the call).
\<close>

datatype call =
    Exit_hook "string option"
  | Entry_hook "string option"
  | Action_call jsval
  | Guard_call string fields
  | Notify nat event_type "string option" "fields option"

text \<open>
  An instance together with what it lives in: the store, the timers of the host that
  were set and have not fired yet, and the calls made so far.
\<close>

record world =
  inst :: machine_instance
  heap :: store
  timers :: "(string \<times> event_object) list"
  trace :: "call list"

text \<open>
  A method either returns or throws; in both cases the world is left as it was when the
  method stopped.
\<close>

datatype outcome = Done world | Threw error world

fun state_of :: "outcome \<Rightarrow> world" where
  "state_of (Done w) = w"
| "state_of (Threw e w) = w"

fun error_of :: "outcome \<Rightarrow> error option" where
  "error_of (Done w) = None"
| "error_of (Threw e w) = Some e"

definition then_do :: "outcome \<Rightarrow> (world \<Rightarrow> outcome) \<Rightarrow> outcome" where
  "then_do r f = (case r of Done w \<Rightarrow> f w | Threw e w \<Rightarrow> Threw e w)"

definition snapshot_context :: "world \<Rightarrow> fields option" where
  "snapshot_context w = map_option (cells (heap w)) (context_ref (inst w))"

text \<open>\<^verbatim>\<open>this.subscribers.forEach(subscriber => subscriber({context, state}, ev))\<close>\<close>

definition notify :: "event_type \<Rightarrow> world \<Rightarrow> world" where
  "notify ev w =
     w\<lparr>trace := trace w @
          map (\<lambda>s. Notify s ev (stateID (inst w)) (snapshot_context w)) (subscribers (inst w))\<rparr>"

text \<open>
  \<^verbatim>\<open>h && h(this.context)\<close> for a hook. On an instance without a context object
  (one made by a call of \<^verbatim>\<open>create\<close> that leaves the context out) the hook is called
  with \<^verbatim>\<open>undefined\<close>: it returns, as every callback is taken to do, and there is no
  context for it to change.
\<close>

definition call_hook :: "hook option \<Rightarrow> call \<Rightarrow> world \<Rightarrow> outcome" where
  "call_hook h c w =
     (case h of
        None \<Rightarrow> Done w
      | Some f \<Rightarrow>
          (case context_ref (inst w) of
             None \<Rightarrow> Done (w\<lparr>trace := trace w @ [c]\<rparr>)
           | Some a \<Rightarrow>
               Done (w\<lparr>heap := set_cell (heap w) a (f (cells (heap w) a)),
                       trace := trace w @ [c]\<rparr>)))"

text \<open>\<^verbatim>\<open>setTimeout(callback, Number(delay))\<close>: one more pending timer.\<close>

definition setTimeout :: "string \<times> event_object \<Rightarrow> world \<Rightarrow> world" where
  "setTimeout t w = w\<lparr>timers := timers w @ [t]\<rparr>"

text \<open>
  \<^verbatim>\<open>setState(stateID)\<close>: the test \<^verbatim>\<open>!this.statesImplementation[stateID]\<close>, which
  a name inherited from \<^verbatim>\<open>Object.prototype\<close> passes as a key of the table does; the
  exit hook of the
  current state when the target differs from it, the switch of \<^verbatim>\<open>stateID\<close> and
  \<^verbatim>\<open>stateObject\<close>, the entry hook, the State-Change notification, and one timer for
  every entry of \<^verbatim>\<open>after\<close>.
\<close>

definition setState :: "string option \<Rightarrow> world \<Rightarrow> outcome" where
  "setState sid w =
     (if table_get inherited_state (statesImplementation (inst w)) (prop_key sid) = None
      then Threw UnknownState w
      else
        then_do
          (if sid \<noteq> stateID (inst w)
           then (case stateObject (inst w) of
                   None \<Rightarrow> Threw TypeError w
                 | Some old \<Rightarrow> call_hook (exit old) (Exit_hook (stateID (inst w))) w)
           else Done w)
          (\<lambda>w1.
             let w2 = w1\<lparr>inst := (inst w1)
                        \<lparr>stateID := sid,
                         stateObject :=
                           table_get inherited_state (statesImplementation (inst w1)) (prop_key sid)\<rparr>\<rparr>
             in case stateObject (inst w2) of
                  None \<Rightarrow> Threw TypeError w2
                | Some new \<Rightarrow>
                    then_do (call_hook (entry new) (Entry_hook (stateID (inst w2))) w2)
                      (\<lambda>w3.
                         let w4 = notify State_Change w3
                         in Done (case after new of
                                    None \<Rightarrow> w4
                                  | Some afterEvents \<Rightarrow> fold setTimeout afterEvents w4))))"

text \<open>
  The loop \<^verbatim>\<open>for (const guard in this.guards)\<close> of \<^verbatim>\<open>executeAction\<close>: \<open>c\<close> is
  the clone taken before the action, \<open>a\<close> the live context.
\<close>

fun run_guards :: "guard_table \<Rightarrow> addr \<Rightarrow> addr \<Rightarrow> world \<Rightarrow> world" where
  "run_guards [] c a w = w"
| "run_guards ((g, p) # gs) c a w =
     (let live = cells (heap w) a;
          w1 = w\<lparr>trace := trace w @ [Guard_call g live]\<rparr>;
          w2 = (if \<not> p live
                then w1\<lparr>heap := set_cell (heap w1) a
                                 (assign live g (get_field (cells (heap w1) c) g))\<rparr>
                else w1)
      in run_guards gs c a w2)"

text \<open>\<^verbatim>\<open>action(this.context, data)\<close>\<close>

definition call_action :: "action_fn \<Rightarrow> jsval \<Rightarrow> addr \<Rightarrow> world \<Rightarrow> world" where
  "call_action act data a w =
     w\<lparr>heap := set_cell (heap w) a (act (cells (heap w) a) data),
       trace := trace w @ [Action_call data]\<rparr>"

definition check_guards :: "addr \<Rightarrow> addr \<Rightarrow> world \<Rightarrow> world" where
  "check_guards c a w =
     (case guards (inst w) of None \<Rightarrow> w | Some gs \<Rightarrow> run_guards gs c a w)"

text \<open>
  \<^verbatim>\<open>executeAction(action, data)\<close>: the clone of the context, the action on the live
  context, the guard loop, and the Context-Change notification when the two
  \<^verbatim>\<open>JSON.stringify\<close> texts differ. On an instance without a context object the
  clone of \<^verbatim>\<open>undefined\<close> is \<^verbatim>\<open>undefined\<close> and the action is called with
  \<^verbatim>\<open>undefined\<close>; without guards the loop is empty, the two texts are both
  \<^verbatim>\<open>undefined\<close> and nobody is notified. With guards (only a direct call of the
  constructor gives an instance guards, and its type asks for a context) the first
  predicate is handed \<^verbatim>\<open>undefined\<close>: it has no context to judge, and reading a
  field of \<^verbatim>\<open>undefined\<close> is a TypeError.
\<close>

definition executeAction :: "action_fn \<Rightarrow> jsval \<Rightarrow> world \<Rightarrow> outcome" where
  "executeAction act data w =
     (case structuredClone (heap w) (context_ref (inst w)) of
        (clonedContext, h1) \<Rightarrow>
          (case (context_ref (inst w), clonedContext) of
             (Some a, Some c) \<Rightarrow>
               let w1 = call_action act data a (w\<lparr>heap := h1\<rparr>);
                   w2 = check_guards c a w1;
                   w3 = (if JSON_stringify (Some (cells (heap w2) c))
                              \<noteq> JSON_stringify (Some (cells (heap w2) a))
                         then notify Context_Change w2
                         else w2)
               in Done w3
           | _ \<Rightarrow>
               let w1 = w\<lparr>heap := h1, trace := trace w @ [Action_call data]\<rparr>
               in (case guards (inst w) of
                     None \<Rightarrow> Done w1
                   | Some gs \<Rightarrow> if gs = [] then Done w1 else Threw TypeError w1)))"

definition start :: "world \<Rightarrow> outcome" where
  "start w = setState (initialState (inst w)) w"

text \<open>
  \<^verbatim>\<open>send()(event, ...data)\<close>: the two tests \<^verbatim>\<open>!currentStateEvents\<close> and
  \<^verbatim>\<open>!currentStateEvents[event]\<close>, then the action and the transition, each under
  its own test. \<open>data\<close> is the rest parameter, an array, and it is this array that
  is handed to \<^verbatim>\<open>executeAction\<close>.
\<close>

definition send :: "string \<Rightarrow> jsval list \<Rightarrow> world \<Rightarrow> outcome" where
  "send event data w =
     (case stateObject (inst w) of
        None \<Rightarrow> Threw TypeError w
      | Some so \<Rightarrow>
          (case on so of
             None \<Rightarrow> Threw MissingEventTable w
           | Some currentStateEvents \<Rightarrow>
               (case table_get inherited_handler currentStateEvents event of
                  None \<Rightarrow> Threw UnknownEvent w
                | Some eventObject \<Rightarrow>
                    then_do
                      (case action eventObject of
                         None \<Rightarrow> Done w
                       | Some eventAction \<Rightarrow> executeAction eventAction (JArr data) w)
                      (\<lambda>w1. if truthy (target eventObject)
                            then setState (target eventObject) w1
                            else Done w1))))"

text \<open>
  The callback that \<^verbatim>\<open>setState\<close> hands to \<^verbatim>\<open>setTimeout\<close>, run by the host when
  the \<open>i\<close>-th pending timer fires. Delays are not modelled as time: any pending
  timer may be the next to fire.
\<close>

definition fire :: "nat \<Rightarrow> world \<Rightarrow> outcome" where
  "fire i w =
     (if i < length (timers w)
      then
        (let afterEvent = snd (timers w ! i);
             w0 = w\<lparr>timers := take i (timers w) @ drop (Suc i) (timers w)\<rparr>
         in then_do
              (case action afterEvent of
                 None \<Rightarrow> Done w0
               | Some afterEventAction \<Rightarrow> executeAction afterEventAction JUndefined w0)
              (\<lambda>w1. if truthy (target afterEvent)
                    then setState (target afterEvent) w1
                    else Done w1))
      else Done w)"

text \<open>\<^verbatim>\<open>subscribe(f)\<close> and the closure it returns.\<close>

definition subscribe :: "nat \<Rightarrow> world \<Rightarrow> world" where
  "subscribe f w = w\<lparr>inst := (inst w)\<lparr>subscribers := subscribers (inst w) @ [f]\<rparr>\<rparr>"

definition unsubscribe :: "nat \<Rightarrow> world \<Rightarrow> world" where
  "unsubscribe f w =
     w\<lparr>inst := (inst w)\<lparr>subscribers := filter (\<lambda>sub. sub \<noteq> f) (subscribers (inst w))\<rparr>\<rparr>"

definition getSnapshot :: "world \<Rightarrow> fields option \<times> string option" where
  "getSnapshot w = (snapshot_context w, stateID (inst w))"

section \<open>The configuration\<close>

text \<open>The fields of \<^verbatim>\<open>MachineConfiguration\<close>; the context is a reference to an object.\<close>

record MachineConfiguration =
  cfg_stateDeclaration :: "string list"
  cfg_statesImplementation :: states_table
  cfg_initialState :: string
  cfg_context :: addr

text \<open>
  The argument of \<^verbatim>\<open>create\<close>: an object whose two properties may each be missing
  (\<open>None\<close>, the property reads \<^verbatim>\<open>undefined\<close>); the whole argument may be missing
  too, and only then does the default of the parameter apply.
\<close>

record create_arg =
  arg_context :: "addr option"
  arg_initialState :: "string option"

definition create ::
  "MachineConfiguration \<Rightarrow> create_arg option \<Rightarrow> store \<Rightarrow> machine_instance \<times> store" where
  "create cfg arg h =
     (let a = (case arg of
                 None \<Rightarrow> \<lparr>arg_context = Some (cfg_context cfg),
                           arg_initialState = Some (cfg_initialState cfg)\<rparr>
               | Some given \<Rightarrow> given)
      in case structuredClone h (arg_context a) of
           (c, h') \<Rightarrow>
             (MachineInstance (cfg_statesImplementation cfg) (arg_initialState a) c None, h'))"

text \<open>The world of an instance that has just been made.\<close>

definition boot :: "machine_instance \<times> store \<Rightarrow> world" where
  "boot p = \<lparr>inst = fst p, heap = snd p, timers = [], trace = []\<rparr>"

section \<open>Observations\<close>

text \<open>
  Functions that read the record of calls: the calls made between two worlds, the guard
  calls with the context each predicate was given, the notifications of one event type,
  the hook calls, the calls to one subscriber, and what a hook does to a context.
\<close>

fun is_guard_call :: "call \<Rightarrow> bool" where
  "is_guard_call (Guard_call k live) = True"
| "is_guard_call c = False"

definition new_calls :: "world \<Rightarrow> world \<Rightarrow> call list" where
  "new_calls w w' = drop (length (trace w)) (trace w')"

fun guard_calls :: "call list \<Rightarrow> (string \<times> fields) list" where
  "guard_calls [] = []"
| "guard_calls (Guard_call k live # cs) = (k, live) # guard_calls cs"
| "guard_calls (c # cs) = guard_calls cs"

fun is_notify :: "event_type \<Rightarrow> call \<Rightarrow> bool" where
  "is_notify ev (Notify s ev' sid c) = (ev' = ev)"
| "is_notify ev c = False"

fun is_hook_call :: "call \<Rightarrow> bool" where
  "is_hook_call (Exit_hook sid) = True"
| "is_hook_call (Entry_hook sid) = True"
| "is_hook_call c = False"

fun to_subscriber :: "nat \<Rightarrow> call \<Rightarrow> bool" where
  "to_subscriber f (Notify s ev sid c) = (s = f)"
| "to_subscriber f c = False"

definition received :: "nat \<Rightarrow> event_type \<Rightarrow> call list \<Rightarrow> call list" where
  "received f ev tr = filter (\<lambda>c. to_subscriber f c \<and> is_notify ev c) tr"

definition apply_hook :: "hook option \<Rightarrow> fields \<Rightarrow> fields" where
  "apply_hook h fs = (case h of None \<Rightarrow> fs | Some f \<Rightarrow> f fs)"

text \<open>
  What the execution of an action makes of a context, as a function of values:
  \<open>reverted gs old live\<close> is the context after the guards \<open>gs\<close> were run on the
  context \<open>live\<close> that the action left, \<open>old\<close> being the context from before the
  action; \<open>acted_on gs act d ctx\<close> is the context after the action \<open>act\<close>, if there
  is one, was executed with the data \<open>d\<close> on the context \<open>ctx\<close> of an instance
  whose guards are \<open>gs\<close>.
\<close>

fun reverted :: "guard_table \<Rightarrow> fields \<Rightarrow> fields \<Rightarrow> fields" where
  "reverted [] old live = live"
| "reverted ((g, p) # gs) old live =
     reverted gs old (if p live then live else assign live g (get_field old g))"

definition acted_on :: "guard_table option \<Rightarrow> action_fn option \<Rightarrow> jsval \<Rightarrow> fields \<Rightarrow> fields" where
  "acted_on gs act d ctx =
     (case act of
        None \<Rightarrow> ctx
      | Some f \<Rightarrow> (case gs of None \<Rightarrow> f ctx d | Some gs \<Rightarrow> reverted gs ctx (f ctx d)))"

text \<open>
  The calls that the execution of an action makes besides the guard calls: the action,
  then Context-Change to every subscriber when the text of the context has changed from
  \<open>ctx\<close> to \<open>ctx'\<close>.
\<close>

definition action_calls ::
  "machine_instance \<Rightarrow> action_fn option \<Rightarrow> jsval \<Rightarrow> fields \<Rightarrow> fields \<Rightarrow> call list" where
  "action_calls i act d ctx ctx' =
     (case act of
        None \<Rightarrow> []
      | Some f \<Rightarrow>
          Action_call d #
          (if JSON_stringify (Some ctx) \<noteq> JSON_stringify (Some ctx')
           then map (\<lambda>s. Notify s Context_Change (stateID i) (Some ctx')) (subscribers i)
           else []))"

text \<open>
  The calls that a transition to \<open>t\<close> makes, from the state definition \<open>old\<close> to the
  state definition \<open>new\<close>, \<open>final\<close> being the context that the hooks leave.
\<close>

definition transition_calls ::
  "machine_instance \<Rightarrow> state_object \<Rightarrow> string option \<Rightarrow> state_object \<Rightarrow> fields \<Rightarrow> call list" where
  "transition_calls i old t new final =
     (if t \<noteq> stateID i \<and> exit old \<noteq> None then [Exit_hook (stateID i)] else [])
     @ (if entry new \<noteq> None then [Entry_hook t] else [])
     @ map (\<lambda>s. Notify s State_Change t (Some final)) (subscribers i)"

text \<open>
  Two worlds inside \<^verbatim>\<open>executeAction\<close> on a context at address \<open>a\<close>: after the
  clone and the action (\<open>acted\<close>), and after the guard loop as well (\<open>guarded\<close>).
\<close>

abbreviation guarded :: "action_fn \<Rightarrow> jsval \<Rightarrow> addr \<Rightarrow> world \<Rightarrow> world" where
  "guarded act d a w \<equiv>
     check_guards (next_addr (heap w)) a
       (call_action act d a (w\<lparr>heap := snd (alloc (heap w) (cells (heap w) a))\<rparr>))"

abbreviation acted :: "action_fn \<Rightarrow> jsval \<Rightarrow> addr \<Rightarrow> world \<Rightarrow> world" where
  "acted act d a w \<equiv>
     call_action act d a (w\<lparr>heap := snd (alloc (heap w) (cells (heap w) a))\<rparr>)"

text \<open>
  What the embedding application and the host can do with an instance. An operation that
  throws is taken to be caught by the caller: the run goes on from the world the throw
  left behind.
\<close>

datatype operation = Start | Send string "jsval list" | Fire nat | Subscribe nat | Unsubscribe nat

fun step :: "operation \<Rightarrow> world \<Rightarrow> world" where
  "step Start w = state_of (start w)"
| "step (Send ev d) w = state_of (send ev d w)"
| "step (Fire i) w = state_of (fire i w)"
| "step (Subscribe f) w = subscribe f w"
| "step (Unsubscribe f) w = unsubscribe f w"

definition run :: "operation list \<Rightarrow> world \<Rightarrow> world" where
  "run ops w = fold step ops w"

text \<open>
  \<open>without f\<close> forgets the subscriber \<open>f\<close>: its subscriptions and the calls made to it.
  \<open>quiet f w w'\<close>: from \<open>w\<close> to \<open>w'\<close> the subscribers stayed the same and \<open>f\<close> was
  not called.
\<close>

fun map_outcome :: "(world \<Rightarrow> world) \<Rightarrow> outcome \<Rightarrow> outcome" where
  "map_outcome g (Done w) = Done (g w)"
| "map_outcome g (Threw e w) = Threw e (g w)"

definition without :: "nat \<Rightarrow> world \<Rightarrow> world" where
  "without f w =
     w\<lparr>inst := (inst w)\<lparr>subscribers := filter (\<lambda>s. s \<noteq> f) (subscribers (inst w))\<rparr>,
       trace := filter (\<lambda>c. \<not> to_subscriber f c) (trace w)\<rparr>"

definition quiet :: "nat \<Rightarrow> world \<Rightarrow> world \<Rightarrow> bool" where
  "quiet f w w' \<longleftrightarrow>
     subscribers (inst w') = subscribers (inst w)
     \<and> filter (to_subscriber f) (trace w') = filter (to_subscriber f) (trace w)"

text \<open>
  \<open>frame w w'\<close>: from \<open>w\<close> to \<open>w'\<close> the instance kept its context reference and
  its table of states, nothing was deallocated, every object that existed in \<open>w\<close>,
  other than the context of the instance, is unchanged, and a current state definition
  that was resolved is still resolved.
\<close>

definition frame :: "world \<Rightarrow> world \<Rightarrow> bool" where
  "frame w w' \<longleftrightarrow>
     context_ref (inst w') = context_ref (inst w)
     \<and> next_addr (heap w) \<le> next_addr (heap w')
     \<and> (\<forall>b. b < next_addr (heap w) \<and> Some b \<noteq> context_ref (inst w)
            \<longrightarrow> cells (heap w') b = cells (heap w) b)
     \<and> statesImplementation (inst w') = statesImplementation (inst w)
     \<and> (stateObject (inst w) \<noteq> None \<longrightarrow> stateObject (inst w') \<noteq> None)"

section \<open>Example inputs\<close>

text \<open>
  The configuration of the README and of the specification: states \<^verbatim>\<open>reading\<close> and
  \<^verbatim>\<open>editing\<close>, context \<^verbatim>\<open>{ committed: '', value: '' }\<close>, held at address 0.
\<close>

definition example_reading :: state_object where
  "example_reading =
     \<lparr>entry = None, exit = None,
      on = Some [(''edit'', \<lparr>target = Some ''editing'', action = None\<rparr>)],
      after = None\<rparr>"

definition example_editing :: state_object where
  "example_editing =
     \<lparr>entry = None, exit = None,
      on = Some
        [(''save'', \<lparr>target = Some ''reading'',
                     action = Some (\<lambda>ctx d. assign ctx ''committed'' (get_field ctx ''value''))\<rparr>),
         (''edit'', \<lparr>target = None,
                     action = Some (\<lambda>ctx d. assign ctx ''value'' d)\<rparr>)],
      after = None\<rparr>"

definition example_config :: MachineConfiguration where
  "example_config =
     \<lparr>cfg_stateDeclaration = [''reading'', ''editing''],
      cfg_statesImplementation = [(''reading'', example_reading), (''editing'', example_editing)],
      cfg_initialState = ''reading'',
      cfg_context = 0\<rparr>"

definition example_store :: store where
  "example_store =
     \<lparr>cells = (\<lambda>_. [])(0 := [(''committed'', JStr []), (''value'', JStr [])]),
      next_addr = 1\<rparr>"

text \<open>
A fresh instance of the example, with one subscriber.
\<close>

definition example_world :: world where
  "example_world = subscribe 7 (boot (create example_config None example_store))"

text \<open>
  \<^verbatim>\<open>start(); send('edit'); send('edit', 'A'); send('save')\<close> with the subscriber
  registered before \<^verbatim>\<open>start()\<close>, and registered after it (as the README does).
\<close>

definition example_run :: world where
  "example_run =
     state_of (send ''save'' []
       (state_of (send ''edit'' [JStr ''A'']
         (state_of (send ''edit'' []
           (state_of (start example_world)))))))"

definition example_run_late :: world where
  "example_run_late =
     state_of (send ''save'' []
       (state_of (send ''edit'' [JStr ''A'']
         (state_of (send ''edit'' []
           (subscribe 7 (state_of (start (boot (create example_config None example_store)))))))))) "

text \<open>
  A machine with hooks, a handler whose target is no state, a handler whose target is a
  name that the table of states inherits, and two delayed handlers: one with an action
  only, one with an action and a target.
\<close>

definition timer_note_tried :: action_fn where
  "timer_note_tried = (\<lambda>ctx d. assign ctx ''note'' (JStr ''tried''))"

definition timer_oops :: event_object where
  "timer_oops = \<lparr>target = Some ''nowhere'', action = Some timer_note_tried\<rparr>"

definition timer_stray :: event_object where
  "timer_stray = \<lparr>target = Some ''constructor'', action = Some timer_note_tried\<rparr>"

definition timer_idle_events :: "(string \<times> event_object) list" where
  "timer_idle_events =
     [(''go'', \<lparr>target = Some ''busy'', action = None\<rparr>), (''oops'', timer_oops),
      (''stray'', timer_stray)]"

definition timer_idle :: state_object where
  "timer_idle =
     \<lparr>entry = Some (\<lambda>ctx. assign ctx ''seen'' (JStr ''idle'')),
      exit = Some (\<lambda>ctx. assign ctx ''left'' (JStr ''idle'')),
      on = Some timer_idle_events,
      after = None\<rparr>"

definition timer_timeout :: event_object where
  "timer_timeout =
     \<lparr>target = Some ''done'',
      action = Some (\<lambda>ctx d. assign ctx ''note'' (JStr ''timeout''))\<rparr>"

definition timer_tick :: event_object where
  "timer_tick =
     \<lparr>target = None,
      action = Some (\<lambda>ctx d. assign ctx ''note'' (JStr ''tick''))\<rparr>"

definition timer_busy :: state_object where
  "timer_busy =
     \<lparr>entry = Some (\<lambda>ctx. assign ctx ''seen'' (JStr ''busy'')),
      exit = None,
      on = Some [(''back'', \<lparr>target = Some ''idle'', action = None\<rparr>)],
      after = Some [(''50'', timer_tick), (''100'', timer_timeout)]\<rparr>"

definition timer_done :: state_object where
  "timer_done = \<lparr>entry = None, exit = None, on = None, after = None\<rparr>"

definition timer_config :: MachineConfiguration where
  "timer_config =
     \<lparr>cfg_stateDeclaration = [''idle'', ''busy'', ''done''],
      cfg_statesImplementation =
        [(''idle'', timer_idle), (''busy'', timer_busy), (''done'', timer_done)],
      cfg_initialState = ''idle'',
      cfg_context = 0\<rparr>"

definition timer_store :: store where
  "timer_store =
     \<lparr>cells = (\<lambda>_. [])(0 := [(''seen'', JStr []), (''left'', JStr []), (''note'', JStr [])]),
      next_addr = 1\<rparr>"

definition timer_world :: world where
  "timer_world = subscribe 7 (boot (create timer_config None timer_store))"

text \<open>
  Started and moved to \<^verbatim>\<open>busy\<close>, which sets the two timers (\<open>timer_pending\<close>);
  then back to \<^verbatim>\<open>idle\<close> before a timer has fired (\<open>timer_stale\<close>).
\<close>

definition timer_pending :: world where
  "timer_pending = state_of (send ''go'' [] (state_of (start timer_world)))"

definition timer_stale :: world where
  "timer_stale = state_of (send ''back'' [] timer_pending)"

text \<open>
  An instance with two guards, made with the constructor: \<^verbatim>\<open>value\<close> must not be
  \<^verbatim>\<open>'bad'\<close>, and \<^verbatim>\<open>note\<close> must be empty unless \<^verbatim>\<open>value\<close> is \<^verbatim>\<open>'bad'\<close>. The action
  sets \<^verbatim>\<open>value\<close> to \<^verbatim>\<open>'bad'\<close>, writes a note and touches the unguarded \<^verbatim>\<open>log\<close>.
\<close>

definition example_guards :: guard_table where
  "example_guards =
     [(''value'', \<lambda>ctx. get_field ctx ''value'' \<noteq> JStr ''bad''),
      (''note'', \<lambda>ctx. get_field ctx ''note'' = JStr [] \<or> get_field ctx ''value'' = JStr ''bad'')]"

definition guard_action :: action_fn where
  "guard_action =
     (\<lambda>ctx d. assign (assign (assign ctx ''value'' (JStr ''bad'')) ''note'' (JStr ''why''))
                ''log'' (JStr ''touched''))"

definition guard_world :: world where
  "guard_world =
     subscribe 7
       \<lparr>inst = MachineInstance [(''idle'', timer_done)] (Some ''idle'') (Some 0)
                 (Some example_guards),
        heap = \<lparr>cells = (\<lambda>_. [])(0 := [(''value'', JStr ''ok''), (''note'', JStr []),
                                        (''log'', JStr [])]),
                next_addr = 1\<rparr>,
        timers = [], trace = []\<rparr>"

text \<open>
  A context with an array that holds \<^verbatim>\<open>null\<close>, and two actions on it: one stores
  \<^verbatim>\<open>undefined\<close> in the array, the other deletes the property \<^verbatim>\<open>items\<close> and adds
  it again with the value it had.
\<close>

definition items_world :: world where
  "items_world =
     subscribe 7
       \<lparr>inst = MachineInstance [(''idle'', timer_done)] (Some ''idle'') (Some 0) None,
        heap = \<lparr>cells = (\<lambda>_. [])(0 := [(''items'', JArr [JNull]), (''note'', JStr ''n'')]),
                next_addr = 1\<rparr>,
        timers = [], trace = []\<rparr>"

definition blank_action :: action_fn where
  "blank_action = (\<lambda>ctx d. assign ctx ''items'' (JArr [JUndefined]))"

definition reinsert_action :: action_fn where
  "reinsert_action =
     (\<lambda>ctx d. assign (filter (\<lambda>kv. fst kv \<noteq> ''items'') ctx) ''items'' (get_field ctx ''items''))"

text \<open>The keys of the example contexts are names, not array indices.\<close>

lemma example_keys:
  "\<not> is_array_index ''committed''" "\<not> is_array_index ''value''"
  "\<not> is_array_index ''seen''" "\<not> is_array_index ''left''" "\<not> is_array_index ''note''"
  "\<not> is_array_index ''log''" "\<not> is_array_index ''items''"
  by (simp_all add: is_array_index_def)

lemma comes_before_name: "\<not> is_array_index k \<Longrightarrow> comes_before k k' = False"
  by (simp add: comes_before_def)

lemmas example_defs =
  example_world_def example_config_def example_store_def example_reading_def example_editing_def
  example_run_def example_run_late_def
  timer_note_tried_def timer_oops_def timer_stray_def timer_tick_def timer_idle_events_def
  timer_idle_def timer_busy_def timer_done_def timer_timeout_def timer_config_def timer_store_def
  timer_world_def timer_pending_def timer_stale_def
  example_guards_def guard_action_def guard_world_def
  items_world_def blank_action_def reinsert_action_def

lemmas run_defs =
  create_def boot_def subscribe_def unsubscribe_def MachineInstance_def structuredClone_def alloc_def
  start_def send_def setState_def executeAction_def call_action_def check_guards_def call_hook_def
  table_get_def Object_prototype_def inherited_state_def inherited_handler_def
  notify_def snapshot_context_def set_cell_def truthy_def JSON_stringify_def QuoteJSONString_def
  quote_char_def getSnapshot_def get_field_def Let_def fire_def setTimeout_def received_def
  new_calls_def example_keys comes_before_name

section \<open>Basic facts\<close>

lemma then_do_Done [simp]: "then_do (Done w) f = f w"
  by (simp add: then_do_def)

lemma then_do_Threw [simp]: "then_do (Threw e w) f = Threw e w"
  by (simp add: then_do_def)

lemma table_get_own: "map_of table name = Some v \<Longrightarrow> table_get d table name = Some v"
  by (simp add: table_get_def)

lemma table_get_absent:
  "table_get d table name = None \<longleftrightarrow> map_of table name = None \<and> name \<notin> set Object_prototype"
  by (simp add: table_get_def split: option.splits)

lemma error_of_setState:
  "error_of (setState sid w) \<in> {None, Some UnknownState, Some TypeError}"
  by (auto simp: setState_def call_hook_def then_do_def Let_def
           split: option.splits outcome.splits)

lemma error_of_executeAction:
  "error_of (executeAction act d w) \<in> {None, Some TypeError}"
  by (auto simp: executeAction_def Let_def split: option.splits prod.splits)

section \<open>Dispatch errors of \<^verbatim>\<open>send\<close>\<close>

text \<open>
  On an instance whose current state definition is resolved, \<^verbatim>\<open>send\<close> raises
  MissingEventTable exactly when that definition has no \<^verbatim>\<open>on\<close> map, and raises
  UnknownEvent exactly when the map exists and the lookup of the event name finds
  nothing in it, neither an own property nor an inherited one. In both cases the world
  is left as it was: no action has run and no transition was made.
\<close>

lemma send_dispatch_errors:
  assumes "stateObject (inst w) = Some so"
  shows "(error_of (send ev d w) = Some MissingEventTable \<longleftrightarrow> on so = None)
       \<and> (error_of (send ev d w) = Some UnknownEvent
            \<longleftrightarrow> (\<exists>evs. on so = Some evs \<and> table_get inherited_handler evs ev = None))
       \<and> (error_of (send ev d w) \<in> {Some MissingEventTable, Some UnknownEvent}
            \<longrightarrow> state_of (send ev d w) = w)"
proof (cases "on so")
  case None
  with assms show ?thesis by (simp add: send_def)
next
  case (Some evs)
  show ?thesis
  proof (cases "table_get inherited_handler evs ev")
    case None
    with Some assms show ?thesis by (simp add: send_def)
  next
    case h: (Some h)
    have "error_of (send ev d w) \<in> {None, Some UnknownState, Some TypeError}"
    proof (cases "action h")
      case None
      then show ?thesis
        using assms Some h error_of_setState[of "target h" w]
        by (simp add: send_def)
    next
      case act: (Some act)
      show ?thesis
      proof (cases "executeAction act (JArr d) w")
        case (Done w1)
        then show ?thesis
          using assms Some h act error_of_setState[of "target h" w1]
          by (simp add: send_def)
      next
        case (Threw e w1)
        then show ?thesis
          using assms Some h act error_of_executeAction[of act "JArr d" w]
          by (simp add: send_def)
      qed
    qed
    with Some h show ?thesis by auto
  qed
qed

text \<open>
  So an event name that is not a key of the \<^verbatim>\<open>on\<close> map is refused unless it is one
  of the twelve names that the map inherits; for those \<^verbatim>\<open>send\<close> returns and has
  done nothing.
\<close>

lemma send_unknown_event:
  assumes "stateObject (inst w) = Some so" and "on so = Some evs"
    and "map_of evs ev = None" and "ev \<notin> set Object_prototype"
  shows "send ev d w = Threw UnknownEvent w"
  using assms by (simp add: send_def table_get_def)

lemma send_inherited_event_name:
  assumes "stateObject (inst w) = Some so" and "on so = Some evs"
    and "map_of evs ev = None" and "ev \<in> set Object_prototype"
  shows "send ev d w = Done w"
  using assms by (simp add: send_def table_get_def inherited_handler_def truthy_def)

text \<open>
  C2. \<^verbatim>\<open>send\<close> is to raise UnknownEvent exactly when the \<^verbatim>\<open>on\<close> map of the
  current state exists and does not contain the event name. The test of the code,
  \<^verbatim>\<open>!currentStateEvents[event]\<close>, does so for a name like \<^verbatim>\<open>save\<close>, but not for
  every name: in the example, in state \<^verbatim>\<open>reading\<close>, whose \<^verbatim>\<open>on\<close> map has the
  one key \<^verbatim>\<open>edit\<close>, \<^verbatim>\<open>send('toString')\<close> raises nothing and returns with the
  instance as it was.
\<close>

theorem send_accepts_an_inherited_event_name:
  "stateObject (inst example_world) = Some example_reading
   \<and> map_option (map fst) (on example_reading) = Some [''edit'']
   \<and> send ''save'' [] example_world = Threw UnknownEvent example_world
   \<and> send ''toString'' [] example_world = Done example_world"
proof -
  have h: "stateObject (inst example_world) = Some example_reading"
    by (simp add: example_world_def subscribe_def boot_def create_def example_config_def
          structuredClone_def alloc_def MachineInstance_def table_get_def)
  have o: "on example_reading
             = Some [(''edit'', \<lparr>target = Some ''editing'', action = None\<rparr>)]"
    by (simp add: example_reading_def)
  have k: "map_option (map fst) (on example_reading) = Some [''edit'']"
    by (simp add: o)
  have s: "send ''save'' [] example_world = Threw UnknownEvent example_world"
    by (rule send_unknown_event[OF h o]) (simp_all add: Object_prototype_def)
  have t: "send ''toString'' [] example_world = Done example_world"
    by (rule send_inherited_event_name[OF h o]) (simp_all add: Object_prototype_def)
  show ?thesis by (intro conjI h k s t)
qed

section \<open>The guard loop\<close>

lemma guard_calls_append [simp]: "guard_calls (xs @ ys) = guard_calls xs @ guard_calls ys"
  by (induction xs rule: guard_calls.induct) simp_all

lemma get_field_assign: "get_field (assign fs k v) j = (if j = k then v else get_field fs j)"
  by (induction fs) (auto simp: get_field_def)

lemma run_guards_append:
  "run_guards (gs1 @ gs2) c a w = run_guards gs2 c a (run_guards gs1 c a w)"
  by (induction gs1 c a w rule: run_guards.induct) (simp_all add: Let_def)

lemma run_guards_inst [simp]: "inst (run_guards gs c a w) = inst w"
  by (induction gs c a w rule: run_guards.induct) (simp_all add: Let_def)

lemma run_guards_timers [simp]: "timers (run_guards gs c a w) = timers w"
  by (induction gs c a w rule: run_guards.induct) (simp_all add: Let_def)

lemma run_guards_next_addr [simp]: "next_addr (heap (run_guards gs c a w)) = next_addr (heap w)"
  by (induction gs c a w rule: run_guards.induct) (simp_all add: Let_def set_cell_def)

lemma run_guards_other_cells:
  "b \<noteq> a \<Longrightarrow> cells (heap (run_guards gs c a w)) b = cells (heap w) b"
  by (induction gs c a w rule: run_guards.induct) (simp_all add: Let_def set_cell_def)

lemma run_guards_trace:
  "trace (run_guards gs c a w) =
     trace w @ map (\<lambda>i. Guard_call (fst (gs ! i)) (cells (heap (run_guards (take i gs) c a w)) a))
                 [0..<length gs]"
proof (induction gs c a w rule: run_guards.induct)
  case (1 c a w)
  then show ?case by simp
next
  case (2 g p gs c a w)
  show ?case
    by (simp add: Let_def 2 upt_conv_Cons map_Suc_upt[symmetric] o_def del: upt_Suc)
qed

lemma run_guards_unguarded:
  "k \<notin> fst ` set gs \<Longrightarrow>
     get_field (cells (heap (run_guards gs c a w)) a) k = get_field (cells (heap w) a) k"
  by (induction gs c a w rule: run_guards.induct)
     (auto simp: Let_def set_cell_def get_field_assign)

lemma run_guards_guarded:
  assumes "distinct (map fst gs)" "c \<noteq> a" "j < length gs" "gs ! j = (k, p)"
  shows "get_field (cells (heap (run_guards gs c a w)) a) k =
           (if p (cells (heap (run_guards (take j gs) c a w)) a)
            then get_field (cells (heap w) a) k
            else get_field (cells (heap w) c) k)"
proof -
  let ?wj = "run_guards (take j gs) c a w"
  have split: "gs = take j gs @ (k, p) # drop (Suc j) gs"
    using assms(3,4) by (metis id_take_nth_drop)
  have d: "distinct (map fst (take j gs @ (k, p) # drop (Suc j) gs))"
    using assms(1) split by simp
  have k1: "k \<notin> fst ` set (take j gs)" and k2: "k \<notin> fst ` set (drop (Suc j) gs)"
    using d by (auto simp: image_iff)
  have "run_guards gs c a w = run_guards (drop (Suc j) gs) c a (run_guards [(k, p)] c a ?wj)"
  proof -
    have "run_guards gs c a w = run_guards (take j gs @ [(k, p)] @ drop (Suc j) gs) c a w"
      using split by simp
    then show ?thesis by (simp only: run_guards_append)
  qed
  then have "get_field (cells (heap (run_guards gs c a w)) a) k
          = get_field (cells (heap (run_guards [(k, p)] c a ?wj)) a) k"
    using k2 by (simp add: run_guards_unguarded)
  also have "\<dots> = (if p (cells (heap ?wj) a) then get_field (cells (heap ?wj) a) k
                   else get_field (cells (heap ?wj) c) k)"
    by (simp add: Let_def set_cell_def get_field_assign)
  also have "get_field (cells (heap ?wj) a) k = get_field (cells (heap w) a) k"
    using k1 by (simp add: run_guards_unguarded)
  also have "cells (heap ?wj) c = cells (heap w) c"
    using assms(2) by (simp add: run_guards_other_cells)
  finally show ?thesis .
qed

lemma notify_heap [simp]: "heap (notify ev w) = heap w"
  by (simp add: notify_def)

lemma notify_inst [simp]: "inst (notify ev w) = inst w"
  by (simp add: notify_def)

lemma notify_timers [simp]: "timers (notify ev w) = timers w"
  by (simp add: notify_def)

lemma call_action_cells:
  "cells (heap (call_action act d a w)) b = (if b = a then act (cells (heap w) a) d else cells (heap w) b)"
  by (simp add: call_action_def set_cell_def)

lemma executeAction_unfold:
  assumes "context_ref (inst w) = Some a" "a < next_addr (heap w)"
  shows "executeAction act d w =
       Done (if JSON_stringify (Some (cells (heap w) a))
                  \<noteq> JSON_stringify (Some (cells (heap (guarded act d a w)) a))
             then notify Context_Change (guarded act d a w) else guarded act d a w)"
proof -
  let ?c = "next_addr (heap w)"
  have ne: "?c \<noteq> a" using assms(2) by simp
  have "cells (heap (guarded act d a w)) ?c = cells (heap w) a"
    using ne
    by (simp add: check_guards_def run_guards_other_cells call_action_cells alloc_def
             split: option.splits)
  then show ?thesis
    using assms(1)
    by (simp add: executeAction_def structuredClone_def alloc_def Let_def)
qed

lemma guarded_trace:
  assumes "guards (inst w) = Some gs"
  shows "trace (guarded act d a w) = trace w @ Action_call d #
     map (\<lambda>i. Guard_call (fst (gs ! i))
            (cells (heap (run_guards (take i gs) (next_addr (heap w)) a (acted act d a w))) a))
       [0..<length gs]"
  using assms by (simp add: check_guards_def call_action_def run_guards_trace)

lemma guard_calls_Notify [simp]: "guard_calls (map (\<lambda>s. Notify s ev sid c) subs) = []"
  by (induction subs) simp_all

lemma guard_calls_Guard [simp]:
  "guard_calls (map (\<lambda>i. Guard_call (f i) (g i)) ns) = map (\<lambda>i. (f i, g i)) ns"
  by (induction ns) simp_all

lemma acted_cells:
  assumes "a < next_addr (heap w)"
  shows "cells (heap (acted act d a w)) a = act (cells (heap w) a) d"
    and "cells (heap (acted act d a w)) (next_addr (heap w)) = cells (heap w) a"
  using assms by (simp_all add: call_action_cells alloc_def)

lemma executeAction_guard_calls:
  assumes "context_ref (inst w) = Some a" "a < next_addr (heap w)" "guards (inst w) = Some gs"
  shows "\<exists>w'. executeAction act d w = Done w' \<and>
     cells (heap w') a = cells (heap (run_guards gs (next_addr (heap w)) a (acted act d a w))) a \<and>
     guard_calls (new_calls w w') =
       map (\<lambda>i. (fst (gs ! i),
                 cells (heap (run_guards (take i gs) (next_addr (heap w)) a (acted act d a w))) a))
         [0..<length gs]"
proof -
  let ?w2 = "guarded act d a w"
  let ?w' = "if JSON_stringify (Some (cells (heap w) a)) \<noteq> JSON_stringify (Some (cells (heap ?w2) a))
             then notify Context_Change ?w2 else ?w2"
  have ex: "executeAction act d w = Done ?w'"
    by (rule executeAction_unfold[OF assms(1,2)])
  have w2: "?w2 = run_guards gs (next_addr (heap w)) a (acted act d a w)"
    using assms(3) by (simp add: check_guards_def call_action_def)
  have "guard_calls (new_calls w ?w') =
       map (\<lambda>i. (fst (gs ! i),
                 cells (heap (run_guards (take i gs) (next_addr (heap w)) a (acted act d a w))) a))
         [0..<length gs]"
    by (simp add: new_calls_def notify_def guarded_trace[OF assms(3)])
  moreover have "cells (heap ?w') a = cells (heap (run_guards gs (next_addr (heap w)) a (acted act d a w))) a"
    using w2 by simp
  ultimately show ?thesis using ex by blast
qed

lemma guard_world_facts:
  "context_ref (inst guard_world) = Some 0"
  "0 < next_addr (heap guard_world)"
  "guards (inst guard_world) = Some example_guards"
  "distinct (map fst example_guards)"
  "cells (heap guard_world) 0 = [(''value'', JStr ''ok''), (''note'', JStr []), (''log'', JStr [])]"
  "get_field (cells (heap guard_world) 0) ''value'' = JStr ''ok''"
  "get_field (guard_action (cells (heap guard_world) 0) JUndefined) ''value'' = JStr ''bad''"
  "get_field (guard_action (cells (heap guard_world) 0) JUndefined) ''log'' = JStr ''touched''"
  by (simp_all add: guard_world_def example_guards_def guard_action_def run_defs)



text \<open>
  C10. The guard predicates are called one after the other in the order of the guard
  keys, each on the live context: in the context the \<open>i\<close>-th predicate is given, a field
  holds its value from before the action exactly when an earlier guard of that field was
  rejected, and the value the action gave it otherwise. So a later predicate judges the
  partly reverted context, not the context as the action left it.
\<close>

theorem guards_see_earlier_reverts:
  assumes "context_ref (inst w) = Some a" and "a < next_addr (heap w)"
    and "guards (inst w) = Some gs" and "distinct (map fst gs)"
  shows "\<exists>w'. executeAction act d w = Done w' \<and>
    map fst (guard_calls (new_calls w w')) = map fst gs \<and>
    (\<forall>i<length gs. \<forall>k.
       get_field (snd (guard_calls (new_calls w w') ! i)) k =
         (if \<exists>j<i. fst (gs ! j) = k \<and> \<not> snd (gs ! j) (snd (guard_calls (new_calls w w') ! j))
          then get_field (cells (heap w) a) k
          else get_field (act (cells (heap w) a) d) k))"
proof -
  let ?c = "next_addr (heap w)"
  let ?w1 = "acted act d a w"
  define live where "live n = cells (heap (run_guards (take n gs) ?c a ?w1)) a" for n
  from executeAction_guard_calls[OF assms(1-3)] obtain w' where
    ex: "executeAction act d w = Done w'"
    and gc: "guard_calls (new_calls w w') = map (\<lambda>i. (fst (gs ! i), live i)) [0..<length gs]"
    unfolding live_def by blast
  define seen where "seen n = snd (guard_calls (new_calls w w') ! n)" for n
  have ne: "?c \<noteq> a" using assms(2) by simp
  note a1 = acted_cells[OF assms(2), of act d]
  have keys: "map fst (guard_calls (new_calls w w')) = map fst gs"
    unfolding gc by (intro nth_equalityI) simp_all
  have nth: "seen n = live n" if "n < length gs" for n
    using that by (simp add: gc seen_def)
  have main: "get_field (seen i) k =
         (if \<exists>j<i. fst (gs ! j) = k \<and> \<not> snd (gs ! j) (seen j)
          then get_field (cells (heap w) a) k
          else get_field (act (cells (heap w) a) d) k)"
    if i: "i < length gs" for i k
  proof -
    have dist: "distinct (map fst (take i gs))"
      using assms(4) by (simp add: take_map[symmetric])
    have mem: "fst (gs ! j) \<in> fst ` set (take i gs)" if "j < i" for j
    proof -
      have "take i gs ! j \<in> set (take i gs)"
        using that i by (intro nth_mem) simp
      then show ?thesis using that by simp
    qed
    show ?thesis
    proof (cases "k \<in> fst ` set (take i gs)")
      case False
      then have notex: "\<not> (\<exists>j<i. fst (gs ! j) = k \<and> \<not> snd (gs ! j) (seen j))"
        using mem by blast
      have "get_field (live i) k = get_field (act (cells (heap w) a) d) k"
        unfolding live_def using False run_guards_unguarded[of k "take i gs" ?c a ?w1] a1(1)
        by (simp del: run_guards.simps)
      then have "get_field (seen i) k = get_field (act (cells (heap w) a) d) k"
        by (simp only: nth[OF i])
      then show ?thesis by (simp only: notex if_False)
    next
      case True
      then obtain j where j: "j < i" "fst (gs ! j) = k"
        using i by (auto simp: in_set_conv_nth image_iff)
      have jl: "j < length gs" using j i by simp
      have uniq: "j' = j" if "j' < i" "fst (gs ! j') = k" for j'
      proof -
        have l: "j' < length (map fst gs)" "j < length (map fst gs)"
          using that j i by simp_all
        have "map fst gs ! j' = map fst gs ! j" using that j i by simp
        with assms(4) l show ?thesis
          by (simp only: nth_eq_iff_index_eq)
      qed
      have tk: "take i gs ! j = (k, snd (gs ! j))" using j by (auto simp: prod_eq_iff)
      have jt: "j < length (take i gs)" using j i by simp
      have tt: "take j (take i gs) = take j gs" using j by (simp add: min_def)
      from run_guards_guarded[OF dist ne jt tk, of ?w1]
      have lv: "get_field (live i) k =
              (if snd (gs ! j) (live j) then get_field (act (cells (heap w) a) d) k
               else get_field (cells (heap w) a) k)"
        unfolding live_def by (simp only: a1 tt)
      have ex_iff: "(\<exists>j'<i. fst (gs ! j') = k \<and> \<not> snd (gs ! j') (seen j'))
                   \<longleftrightarrow> \<not> snd (gs ! j) (seen j)"
        using uniq j by blast
      show ?thesis
        unfolding ex_iff nth[OF i] nth[OF jl] lv by simp
    qed
  qed
  have "\<forall>i<length gs. \<forall>k. get_field (seen i) k =
         (if \<exists>j<i. fst (gs ! j) = k \<and> \<not> snd (gs ! j) (seen j)
          then get_field (cells (heap w) a) k
          else get_field (act (cells (heap w) a) d) k)"
    using main by blast
  with ex keys show ?thesis unfolding seen_def by blast
qed

theorem guards_see_earlier_reverts_witness:
  "context_ref (inst guard_world) = Some 0
   \<and> 0 < next_addr (heap guard_world)
   \<and> guards (inst guard_world) = Some example_guards
   \<and> distinct (map fst example_guards)
   \<and> guard_calls (trace (state_of (executeAction guard_action JUndefined guard_world)))
       = [(''value'', [(''value'', JStr ''bad''), (''note'', JStr ''why''), (''log'', JStr ''touched'')]),
          (''note'', [(''value'', JStr ''ok''), (''note'', JStr ''why''), (''log'', JStr ''touched'')])]
   \<and> snd (example_guards ! 1) (guard_action (cells (heap guard_world) 0) JUndefined)
   \<and> \<not> snd (example_guards ! 1)
         [(''value'', JStr ''ok''), (''note'', JStr ''why''), (''log'', JStr ''touched'')]
   \<and> get_field (cells (heap (state_of (executeAction guard_action JUndefined guard_world))) 0)
         ''note'' = JStr []
   \<and> (\<exists>w'. executeAction guard_action JUndefined guard_world = Done w'
        \<and> map fst (guard_calls (new_calls guard_world w')) = [''value'', ''note'']
        \<and> get_field (snd (guard_calls (new_calls guard_world w') ! 1)) ''value'' =
            (if \<not> snd (example_guards ! 0) (snd (guard_calls (new_calls guard_world w') ! 0))
             then JStr ''ok'' else JStr ''bad''))"
proof -
  note f = guard_world_facts
  from guards_see_earlier_reverts[OF f(1-4), of guard_action JUndefined] obtain w' where
    ex: "executeAction guard_action JUndefined guard_world = Done w'"
    and k: "map fst (guard_calls (new_calls guard_world w')) = map fst example_guards"
    and s: "\<forall>i<length example_guards. \<forall>k.
       get_field (snd (guard_calls (new_calls guard_world w') ! i)) k =
         (if \<exists>j<i. fst (example_guards ! j) = k
                \<and> \<not> snd (example_guards ! j) (snd (guard_calls (new_calls guard_world w') ! j))
          then get_field (cells (heap guard_world) 0) k
          else get_field (guard_action (cells (heap guard_world) 0) JUndefined) k)"
    by blast
  have "1 < length example_guards" by (simp add: example_guards_def)
  with s have "get_field (snd (guard_calls (new_calls guard_world w') ! 1)) ''value'' =
         (if \<exists>j<1. fst (example_guards ! j) = ''value''
                \<and> \<not> snd (example_guards ! j) (snd (guard_calls (new_calls guard_world w') ! j))
          then get_field (cells (heap guard_world) 0) ''value''
          else get_field (guard_action (cells (heap guard_world) 0) JUndefined) ''value'')"
    by blast
  moreover have "fst (example_guards ! 0) = ''value''" by (simp add: example_guards_def)
  ultimately have v: "get_field (snd (guard_calls (new_calls guard_world w') ! 1)) ''value'' =
            (if \<not> snd (example_guards ! 0) (snd (guard_calls (new_calls guard_world w') ! 0))
             then JStr ''ok'' else JStr ''bad'')"
    by (simp add: f(6,7))
  have k': "map fst (guard_calls (new_calls guard_world w')) = [''value'', ''note'']"
    using k by (simp add: example_guards_def)
  have t: "guard_calls (trace (state_of (executeAction guard_action JUndefined guard_world)))
       = [(''value'', [(''value'', JStr ''bad''), (''note'', JStr ''why''), (''log'', JStr ''touched'')]),
          (''note'', [(''value'', JStr ''ok''), (''note'', JStr ''why''), (''log'', JStr ''touched'')])]"
    by (simp add: guard_world_def example_guards_def guard_action_def run_defs)
  have e: "\<exists>w'. executeAction guard_action JUndefined guard_world = Done w'
        \<and> map fst (guard_calls (new_calls guard_world w')) = [''value'', ''note'']
        \<and> get_field (snd (guard_calls (new_calls guard_world w') ! 1)) ''value'' =
            (if \<not> snd (example_guards ! 0) (snd (guard_calls (new_calls guard_world w') ! 0))
             then JStr ''ok'' else JStr ''bad'')"
    by (intro exI[of _ w'] conjI) (rule ex k' v)+
  have raw: "snd (example_guards ! 1) (guard_action (cells (heap guard_world) 0) JUndefined)"
    and live: "\<not> snd (example_guards ! 1)
         [(''value'', JStr ''ok''), (''note'', JStr ''why''), (''log'', JStr ''touched'')]"
    and fin: "get_field (cells (heap (state_of (executeAction guard_action JUndefined guard_world))) 0)
         ''note'' = JStr []"
    by (simp_all add: guard_world_def example_guards_def guard_action_def run_defs)
  show ?thesis by (intro conjI f(1) f(2) f(3) f(4) t raw live fin e)
qed

section \<open>State transitions\<close>

lemma fold_setTimeout: "fold setTimeout ts w = w\<lparr>timers := timers w @ ts\<rparr>"
  by (induction ts arbitrary: w) (simp_all add: setTimeout_def)

lemma call_hook_defined:
  assumes "context_ref (inst w) = Some a"
  shows "call_hook h c w =
           Done (case h of None \<Rightarrow> w
                 | Some f \<Rightarrow> w\<lparr>heap := set_cell (heap w) a (f (cells (heap w) a)),
                                 trace := trace w @ [c]\<rparr>)"
  using assms by (simp add: call_hook_def split: option.splits)

lemma setState_resolved:
  assumes "table_get inherited_state (statesImplementation (inst w)) t = Some new"
    and "stateObject (inst w) = Some old"
    and "context_ref (inst w) = Some a"
  shows "\<exists>w'. setState (Some t) w = Done w'
     \<and> inst w' = (inst w)\<lparr>stateID := Some t, stateObject := Some new\<rparr>
     \<and> cells (heap w') a =
          apply_hook (entry new)
            (if Some t \<noteq> stateID (inst w) then apply_hook (exit old) (cells (heap w) a)
             else cells (heap w) a)
     \<and> trace w' = trace w
          @ (if Some t \<noteq> stateID (inst w) \<and> exit old \<noteq> None
             then [Exit_hook (stateID (inst w))] else [])
          @ (if entry new \<noteq> None then [Entry_hook (Some t)] else [])
          @ map (\<lambda>s. Notify s State_Change (Some t) (Some (cells (heap w') a)))
              (subscribers (inst w))
     \<and> timers w' = timers w @ (case after new of None \<Rightarrow> [] | Some ts \<Rightarrow> ts)"
proof -
  let ?w1 = "if Some t \<noteq> stateID (inst w)
             then (case exit old of None \<Rightarrow> w
                   | Some f \<Rightarrow> w\<lparr>heap := set_cell (heap w) a (f (cells (heap w) a)),
                                   trace := trace w @ [Exit_hook (stateID (inst w))]\<rparr>)
             else w"
  let ?w2 = "?w1\<lparr>inst := (inst ?w1)\<lparr>stateID := Some t, stateObject := Some new\<rparr>\<rparr>"
  let ?w3 = "case entry new of None \<Rightarrow> ?w2
             | Some f \<Rightarrow> ?w2\<lparr>heap := set_cell (heap ?w2) a (f (cells (heap ?w2) a)),
                              trace := trace ?w2 @ [Entry_hook (Some t)]\<rparr>"
  let ?w4 = "notify State_Change ?w3"
  let ?w' = "?w4\<lparr>timers := timers ?w4 @ (case after new of None \<Rightarrow> [] | Some ts \<Rightarrow> ts)\<rparr>"
  have i1: "inst ?w1 = inst w"
    by (simp split: option.splits)
  have c2: "context_ref (inst ?w2) = Some a"
    using assms(3) by (simp add: i1)
  have step1: "(if Some t \<noteq> stateID (inst w)
           then (case stateObject (inst w) of
                   None \<Rightarrow> Threw TypeError w
                 | Some old \<Rightarrow> call_hook (exit old) (Exit_hook (stateID (inst w))) w)
           else Done w) = Done ?w1"
    using assms(2) call_hook_defined[OF assms(3)] by simp
  have step3: "call_hook (entry new) (Entry_hook (Some t)) ?w2 = Done ?w3"
    using call_hook_defined[OF c2] by simp
  have run: "setState (Some t) w = Done ?w'"
    unfolding setState_def
    using assms(1) step3
    apply (simp only: prop_key.simps step1 then_do_Done Let_def i1)
    apply (simp add: fold_setTimeout split: option.splits)
    done
  have ins: "inst ?w' = (inst w)\<lparr>stateID := Some t, stateObject := Some new\<rparr>"
    by (simp add: notify_def split: option.splits)
  have tim: "timers ?w' = timers w @ (case after new of None \<Rightarrow> [] | Some ts \<Rightarrow> ts)"
    by (simp add: notify_def split: option.splits)
  have cells: "cells (heap ?w') a =
          apply_hook (entry new)
            (if Some t \<noteq> stateID (inst w) then apply_hook (exit old) (cells (heap w) a)
             else cells (heap w) a)"
    by (simp add: apply_hook_def set_cell_def notify_def split: option.splits)
  have calls: "trace ?w' = trace w
          @ (if Some t \<noteq> stateID (inst w) \<and> exit old \<noteq> None
           then [Exit_hook (stateID (inst w))] else [])
          @ (if entry new \<noteq> None then [Entry_hook (Some t)] else [])
          @ map (\<lambda>s. Notify s State_Change (Some t) (Some (cells (heap ?w') a)))
              (subscribers (inst w))"
    using assms(3)
    by (simp add: notify_def snapshot_context_def set_cell_def split: option.splits)
  from run ins cells calls tim show ?thesis by blast
qed

lemma setState_unknown:
  assumes "table_get inherited_state (statesImplementation (inst w)) (prop_key sid) = None"
  shows "setState sid w = Threw UnknownState w"
  using assms by (simp add: setState_def)

lemma setState_effect:
  assumes "table_get inherited_state (statesImplementation (inst w)) t = Some new"
    and "stateObject (inst w) = Some old"
    and "context_ref (inst w) = Some a"
  shows "\<exists>w'. setState (Some t) w = Done w'
     \<and> inst w' = (inst w)\<lparr>stateID := Some t, stateObject := Some new\<rparr>
     \<and> cells (heap w') a =
          apply_hook (entry new)
            (if Some t \<noteq> stateID (inst w) then apply_hook (exit old) (cells (heap w) a)
             else cells (heap w) a)
     \<and> trace w' = trace w @ transition_calls (inst w) old (Some t) new (cells (heap w') a)
     \<and> timers w' = timers w @ (case after new of None \<Rightarrow> [] | Some ts \<Rightarrow> ts)"
  using setState_resolved[OF assms] unfolding transition_calls_def by simp

lemma timer_world_facts:
  "map_of (statesImplementation (inst timer_world)) ''busy'' = Some timer_busy"
  "stateObject (inst timer_world) = Some timer_idle"
  "context_ref (inst timer_world) = Some 1"
  "stateID (inst timer_world) = Some ''idle''"
  "subscribers (inst timer_world) = [7]"
  by (simp_all add: timer_world_def timer_config_def timer_store_def run_defs)

text \<open>
  C3. A transition to a target that is a key of the table, from a resolved current state:
  \<^verbatim>\<open>setState\<close> returns; the exit hook of the old state is called, if there is one,
  exactly when the target differs from the current state identifier, and it is called
  while the current-state pointer is still the old one; then the entry hook of the new
  state is called, if there is one, in every case; then every subscriber is called once
  with State-Change, in subscription order, with the new state and the context as the
  hooks left it. These are all the calls the transition makes.
\<close>

theorem setState_hook_order:
  assumes "map_of (statesImplementation (inst w)) t = Some new"
    and "stateObject (inst w) = Some old"
    and "context_ref (inst w) = Some a"
  shows "\<exists>w'. setState (Some t) w = Done w'
     \<and> stateID (inst w') = Some t \<and> stateObject (inst w') = Some new
     \<and> cells (heap w') a =
          apply_hook (entry new)
            (if Some t \<noteq> stateID (inst w) then apply_hook (exit old) (cells (heap w) a)
             else cells (heap w) a)
     \<and> new_calls w w' =
          (if Some t \<noteq> stateID (inst w) \<and> exit old \<noteq> None
           then [Exit_hook (stateID (inst w))] else [])
          @ (if entry new \<noteq> None then [Entry_hook (Some t)] else [])
          @ map (\<lambda>s. Notify s State_Change (Some t) (Some (cells (heap w') a)))
              (subscribers (inst w))"
proof -
  from setState_resolved[OF table_get_own[OF assms(1)] assms(2,3)] obtain w' where
    r: "setState (Some t) w = Done w'"
    and i: "inst w' = (inst w)\<lparr>stateID := Some t, stateObject := Some new\<rparr>"
    and c: "cells (heap w') a =
          apply_hook (entry new)
            (if Some t \<noteq> stateID (inst w) then apply_hook (exit old) (cells (heap w) a)
             else cells (heap w) a)"
    and tr: "trace w' = trace w
          @ (if Some t \<noteq> stateID (inst w) \<and> exit old \<noteq> None
             then [Exit_hook (stateID (inst w))] else [])
          @ (if entry new \<noteq> None then [Entry_hook (Some t)] else [])
          @ map (\<lambda>s. Notify s State_Change (Some t) (Some (cells (heap w') a)))
              (subscribers (inst w))"
    by blast
  have "new_calls w w' =
          (if Some t \<noteq> stateID (inst w) \<and> exit old \<noteq> None
           then [Exit_hook (stateID (inst w))] else [])
          @ (if entry new \<noteq> None then [Entry_hook (Some t)] else [])
          @ map (\<lambda>s. Notify s State_Change (Some t) (Some (cells (heap w') a)))
              (subscribers (inst w))"
    unfolding new_calls_def tr by simp
  with r i c show ?thesis by simp
qed

theorem setState_hook_order_witness:
  "map_of (statesImplementation (inst timer_world)) ''busy'' = Some timer_busy
   \<and> stateObject (inst timer_world) = Some timer_idle
   \<and> context_ref (inst timer_world) = Some 1
   \<and> (\<exists>w'. setState (Some ''busy'') timer_world = Done w'
        \<and> stateID (inst w') = Some ''busy''
        \<and> cells (heap w') 1 =
             [(''seen'', JStr ''busy''), (''left'', JStr ''idle''), (''note'', JStr [])]
        \<and> new_calls timer_world w' =
             [Exit_hook (Some ''idle''), Entry_hook (Some ''busy''),
              Notify 7 State_Change (Some ''busy'')
                (Some [(''seen'', JStr ''busy''), (''left'', JStr ''idle''), (''note'', JStr [])])])"
proof -
  note f = timer_world_facts
  have c: "cells (heap timer_world) 1 = [(''seen'', JStr []), (''left'', JStr []), (''note'', JStr [])]"
    by (simp add: timer_world_def timer_config_def timer_store_def run_defs)
  from setState_hook_order[OF f(1,2,3)] obtain w' where
    "setState (Some ''busy'') timer_world = Done w'"
    "stateID (inst w') = Some ''busy''"
    "cells (heap w') 1 =
          apply_hook (entry timer_busy)
            (if Some ''busy'' \<noteq> stateID (inst timer_world)
             then apply_hook (exit timer_idle) (cells (heap timer_world) 1)
             else cells (heap timer_world) 1)"
    "new_calls timer_world w' =
          (if Some ''busy'' \<noteq> stateID (inst timer_world) \<and> exit timer_idle \<noteq> None
           then [Exit_hook (stateID (inst timer_world))] else [])
          @ (if entry timer_busy \<noteq> None then [Entry_hook (Some ''busy'')] else [])
          @ map (\<lambda>s. Notify s State_Change (Some ''busy'') (Some (cells (heap w') 1)))
              (subscribers (inst timer_world))"
    by blast
  then have r: "setState (Some ''busy'') timer_world = Done w'
        \<and> stateID (inst w') = Some ''busy''
        \<and> cells (heap w') 1 =
             [(''seen'', JStr ''busy''), (''left'', JStr ''idle''), (''note'', JStr [])]
        \<and> new_calls timer_world w' =
             [Exit_hook (Some ''idle''), Entry_hook (Some ''busy''),
              Notify 7 State_Change (Some ''busy'')
                (Some [(''seen'', JStr ''busy''), (''left'', JStr ''idle''), (''note'', JStr [])])]"
    by (simp add: f c[unfolded One_nat_def] apply_hook_def timer_busy_def timer_idle_def)
  have e: "\<exists>w'. setState (Some ''busy'') timer_world = Done w'
        \<and> stateID (inst w') = Some ''busy''
        \<and> cells (heap w') 1 =
             [(''seen'', JStr ''busy''), (''left'', JStr ''idle''), (''note'', JStr [])]
        \<and> new_calls timer_world w' =
             [Exit_hook (Some ''idle''), Entry_hook (Some ''busy''),
              Notify 7 State_Change (Some ''busy'')
                (Some [(''seen'', JStr ''busy''), (''left'', JStr ''idle''), (''note'', JStr [])])]"
    by (rule exI[of _ w']) (rule r)
  show ?thesis by (intro conjI f(1) f(2) f(3) e)
qed

section \<open>Action execution\<close>

lemma filter_Guard_calls [simp]:
  "filter is_hook_call (map (\<lambda>i. Guard_call (f i) (g i)) ns) = []"
  "filter (is_notify ev) (map (\<lambda>i. Guard_call (f i) (g i)) ns) = []"
  by (induction ns) simp_all

lemma run_guards_trace_hooks:
  "\<exists>tr. trace (run_guards gs c a w) = trace w @ tr \<and> filter is_hook_call tr = []
        \<and> filter (is_notify ev) tr = []"
  unfolding run_guards_trace by simp

lemma check_guards_inst [simp]: "inst (check_guards c a w) = inst w"
  by (simp add: check_guards_def split: option.splits)

lemma check_guards_timers [simp]: "timers (check_guards c a w) = timers w"
  by (simp add: check_guards_def split: option.splits)

lemma executeAction_inst [simp]: "inst (state_of (executeAction act d w)) = inst w"
  by (simp add: executeAction_def call_action_def Let_def split: prod.splits option.splits)

lemma executeAction_timers [simp]: "timers (state_of (executeAction act d w)) = timers w"
  by (simp add: executeAction_def call_action_def Let_def split: prod.splits option.splits)

lemma executeAction_Done:
  assumes "context_ref (inst w) = Some a"
  shows "\<exists>w'. executeAction act d w = Done w'"
  using assms
  by (simp add: executeAction_def structuredClone_def alloc_def Let_def
           split: prod.splits option.splits)

lemma check_guards_trace:
  "\<exists>tr. trace (check_guards c a w) = trace w @ tr \<and> filter is_hook_call tr = []
        \<and> filter (is_notify ev) tr = []"
proof (cases "guards (inst w)")
  case None
  then show ?thesis by (simp add: check_guards_def)
next
  case (Some gs)
  then show ?thesis
    using run_guards_trace_hooks[of gs c a w ev] by (simp add: check_guards_def)
qed

lemma executeAction_trace:
  assumes "context_ref (inst w) = Some a"
  shows "\<exists>tr. trace (state_of (executeAction act d w)) = trace w @ Action_call d # tr
            \<and> filter is_hook_call tr = [] \<and> filter (is_notify State_Change) tr = []"
proof -
  obtain c h1 where sc: "structuredClone (heap w) (context_ref (inst w)) = (Some c, h1)"
    using assms by (simp add: structuredClone_def alloc_def)
  let ?w1 = "call_action act d a (w\<lparr>heap := h1\<rparr>)"
  obtain tr where tr: "trace (check_guards c a ?w1) = trace ?w1 @ tr"
      "filter is_hook_call tr = []" "filter (is_notify State_Change) tr = []"
    using check_guards_trace[of c a ?w1 State_Change] by blast
  have t1: "trace ?w1 = trace w @ [Action_call d]"
    by (simp add: call_action_def)
  show ?thesis
    using assms sc tr t1
    by (auto simp: executeAction_def Let_def notify_def)
qed






lemma filter_Notify_same [simp]:
  "filter (is_notify ev) (map (\<lambda>s. Notify s ev sid c) subs) = map (\<lambda>s. Notify s ev sid c) subs"
  by (induction subs) simp_all

lemma filter_Notify_hook [simp]:
  "filter is_hook_call (map (\<lambda>s. Notify s ev sid c) subs) = []"
  by (induction subs) simp_all

lemma call_action_inst [simp]: "inst (call_action act d a w) = inst w"
  by (simp add: call_action_def)

lemma call_action_trace [simp]: "trace (call_action act d a w) = trace w @ [Action_call d]"
  by (simp add: call_action_def)

lemma run_guards_cells:
  "c \<noteq> a \<Longrightarrow>
     cells (heap (run_guards gs c a w)) a = reverted gs (cells (heap w) c) (cells (heap w) a)"
  by (induction gs c a w rule: run_guards.induct) (simp_all add: Let_def set_cell_def)

lemma filter_no_guard_calls [simp]:
  "filter (\<lambda>c. \<not> is_guard_call c) (map (\<lambda>i. Guard_call (f i) (g i)) ns) = []"
  "filter (\<lambda>c. \<not> is_guard_call c) (map (\<lambda>s. Notify s ev sid c) subs)
     = map (\<lambda>s. Notify s ev sid c) subs"
  by (induction ns) (simp_all add: filter_id_conv)

lemma guarded_cells:
  assumes "a < next_addr (heap w)"
  shows "cells (heap (guarded act d a w)) a
           = acted_on (guards (inst w)) (Some act) d (cells (heap w) a)"
proof (cases "guards (inst w)")
  case None
  then show ?thesis
    using acted_cells[OF assms, of act d] by (simp add: check_guards_def acted_on_def)
next
  case (Some gs)
  have ne: "next_addr (heap w) \<noteq> a" using assms by simp
  show ?thesis
    using Some acted_cells[OF assms, of act d] run_guards_cells[OF ne, of gs "acted act d a w"]
    by (simp add: check_guards_def acted_on_def)
qed

lemma guarded_calls:
  "filter (\<lambda>c. \<not> is_guard_call c) (drop (length (trace w)) (trace (guarded act d a w)))
     = [Action_call d]"
  by (cases "guards (inst w)") (simp_all add: check_guards_def run_guards_trace)

text \<open>
  What \<^verbatim>\<open>executeAction\<close> does on an instance with an allocated context object.
\<close>

lemma executeAction_effect:
  assumes "context_ref (inst w) = Some a" and "a < next_addr (heap w)"
  shows "\<exists>w'. executeAction act d w = Done w' \<and> inst w' = inst w \<and> timers w' = timers w
     \<and> a < next_addr (heap w')
     \<and> cells (heap w') a = acted_on (guards (inst w)) (Some act) d (cells (heap w) a)
     \<and> filter (\<lambda>c. \<not> is_guard_call c) (new_calls w w')
         = action_calls (inst w) (Some act) d (cells (heap w) a) (cells (heap w') a)
     \<and> trace w' = trace w @ new_calls w w'"
proof -
  let ?w2 = "guarded act d a w"
  let ?w' = "if JSON_stringify (Some (cells (heap w) a)) \<noteq> JSON_stringify (Some (cells (heap ?w2) a))
             then notify Context_Change ?w2 else ?w2"
  have ex: "executeAction act d w = Done ?w'"
    by (rule executeAction_unfold[OF assms])
  have i: "inst ?w' = inst w" and t: "timers ?w' = timers w"
    by (simp_all add: call_action_def)
  have n: "a < next_addr (heap ?w')"
    using assms(2) by (simp add: check_guards_def alloc_def call_action_def set_cell_def
                          split: option.splits)
  have c: "cells (heap ?w') a = acted_on (guards (inst w)) (Some act) d (cells (heap w) a)"
    using guarded_cells[OF assms(2), of act d] by simp
  have sc: "snapshot_context ?w2 = Some (cells (heap ?w2) a)"
    using assms(1) by (simp add: snapshot_context_def)
  have le: "length (trace w) \<le> length (trace ?w2)"
    by (cases "guards (inst w)") (simp_all add: check_guards_def run_guards_trace)
  have calls: "filter (\<lambda>c. \<not> is_guard_call c) (new_calls w ?w')
         = action_calls (inst w) (Some act) d (cells (heap w) a) (cells (heap ?w') a)"
    using guarded_calls[where w=w and act=act and d=d and a=a] le
    by (simp add: new_calls_def action_calls_def notify_def sc)
  have "\<exists>tr. trace ?w' = trace w @ tr"
    using executeAction_trace[OF assms(1), of act d] ex by auto
  then have pre: "trace ?w' = trace w @ new_calls w ?w'"
    unfolding new_calls_def by auto
  from ex i t n c calls pre show ?thesis by blast
qed

lemma filter_transition_calls [simp]:
  "filter (\<lambda>c. \<not> is_guard_call c) (transition_calls i old t new final)
     = transition_calls i old t new final"
  by (simp add: transition_calls_def)

text \<open>
  The action of a handler, if it has one, on an instance with an allocated context
  object.
\<close>

lemma handler_action:
  assumes "context_ref (inst w) = Some a" and "a < next_addr (heap w)"
  shows "\<exists>w1. (case act of None \<Rightarrow> Done w | Some f \<Rightarrow> executeAction f d w) = Done w1
     \<and> inst w1 = inst w \<and> timers w1 = timers w
     \<and> cells (heap w1) a = acted_on (guards (inst w)) act d (cells (heap w) a)
     \<and> filter (\<lambda>c. \<not> is_guard_call c) (new_calls w w1)
         = action_calls (inst w) act d (cells (heap w) a) (cells (heap w1) a)
     \<and> trace w1 = trace w @ new_calls w w1"
proof (cases act)
  case None
  then show ?thesis by (simp add: acted_on_def action_calls_def new_calls_def)
next
  case (Some f)
  then show ?thesis using executeAction_effect[OF assms, where act=f and d=d] by auto
qed

text \<open>
  What a handler does, for an event that was sent or for a timer that fires: its
  action, if it has one, and then, if it has a target, the transition to it. The
  transition is refused, after the action, when the lookup of the target in the table
  of states finds nothing.
\<close>

lemma handler_effect:
  assumes ctx: "context_ref (inst w) = Some a" and al: "a < next_addr (heap w)"
    and so: "stateObject (inst w) = Some old"
    and r: "r = then_do (case act of None \<Rightarrow> Done w | Some f \<Rightarrow> executeAction f d w)
                  (\<lambda>w1. if truthy tg then setState tg w1 else Done w1)"
    and m: "middle = acted_on (guards (inst w)) act d (cells (heap w) a)"
  shows "if truthy tg
         then (case table_get inherited_state (statesImplementation (inst w)) (prop_key tg) of
                 None \<Rightarrow>
                   error_of r = Some UnknownState
                   \<and> inst (state_of r) = inst w
                   \<and> cells (heap (state_of r)) a = middle
                   \<and> timers (state_of r) = timers w
                   \<and> filter (\<lambda>c. \<not> is_guard_call c) (new_calls w (state_of r))
                       = action_calls (inst w) act d (cells (heap w) a) middle
               | Some new \<Rightarrow>
                   error_of r = None
                   \<and> inst (state_of r) = (inst w)\<lparr>stateID := tg, stateObject := Some new\<rparr>
                   \<and> cells (heap (state_of r)) a =
                        apply_hook (entry new)
                          (if tg \<noteq> stateID (inst w) then apply_hook (exit old) middle
                           else middle)
                   \<and> timers (state_of r)
                       = timers w @ (case after new of None \<Rightarrow> [] | Some ts \<Rightarrow> ts)
                   \<and> filter (\<lambda>c. \<not> is_guard_call c) (new_calls w (state_of r))
                       = action_calls (inst w) act d (cells (heap w) a) middle
                         @ transition_calls (inst w) old tg new (cells (heap (state_of r)) a))
         else error_of r = None
              \<and> inst (state_of r) = inst w
              \<and> cells (heap (state_of r)) a = middle
              \<and> timers (state_of r) = timers w
              \<and> filter (\<lambda>c. \<not> is_guard_call c) (new_calls w (state_of r))
                  = action_calls (inst w) act d (cells (heap w) a) middle"
proof -
  from handler_action[OF ctx al, where act=act and d=d] obtain w1 where
    a1: "(case act of None \<Rightarrow> Done w | Some f \<Rightarrow> executeAction f d w) = Done w1"
    and i1: "inst w1 = inst w" and t1: "timers w1 = timers w"
    and c1: "cells (heap w1) a = middle"
    and k1: "filter (\<lambda>c. \<not> is_guard_call c) (new_calls w w1)
               = action_calls (inst w) act d (cells (heap w) a) middle"
    and p1: "trace w1 = trace w @ new_calls w w1"
    unfolding m by auto
  have r1: "r = (if truthy tg then setState tg w1 else Done w1)"
    unfolding r a1 by simp
  show ?thesis
  proof (cases "truthy tg")
    case False
    then show ?thesis using r1 i1 t1 c1 k1 by simp
  next
    case True
    then obtain t where tg: "tg = Some t"
      by (cases tg) (simp_all add: truthy_def)
    show ?thesis
    proof (cases "table_get inherited_state (statesImplementation (inst w)) (prop_key tg)")
      case None
      then have "setState tg w1 = Threw UnknownState w1"
        using setState_unknown[of w1 tg] i1 by simp
      then show ?thesis using True None r1 i1 t1 c1 k1 by simp
    next
      case (Some new)
      have g: "table_get inherited_state (statesImplementation (inst w1)) t = Some new"
        using Some tg i1 by simp
      have s1: "stateObject (inst w1) = Some old" and x1: "context_ref (inst w1) = Some a"
        using so ctx i1 by simp_all
      from setState_effect[OF g s1 x1] obtain w' where
        e: "setState (Some t) w1 = Done w'"
        and i': "inst w' = (inst w1)\<lparr>stateID := Some t, stateObject := Some new\<rparr>"
        and c': "cells (heap w') a =
                   apply_hook (entry new)
                     (if Some t \<noteq> stateID (inst w1) then apply_hook (exit old) (cells (heap w1) a)
                      else cells (heap w1) a)"
        and p': "trace w' = trace w1 @ transition_calls (inst w1) old (Some t) new (cells (heap w') a)"
        and t': "timers w' = timers w1 @ (case after new of None \<Rightarrow> [] | Some ts \<Rightarrow> ts)"
        by blast
      have rw: "r = Done w'" using r1 True tg e by simp
      have le: "length (trace w) \<le> length (trace w1)"
        using p1 by (metis le_add1 length_append)
      have "new_calls w w' = new_calls w w1
              @ transition_calls (inst w) old (Some t) new (cells (heap w') a)"
        using p' i1 le by (simp add: new_calls_def)
      then have k': "filter (\<lambda>c. \<not> is_guard_call c) (new_calls w w')
              = action_calls (inst w) act d (cells (heap w) a) middle
                @ transition_calls (inst w) old (Some t) new (cells (heap w') a)"
        using k1 by simp
      show ?thesis
        using True Some rw tg i' c' t' k' i1 t1 c1 by simp
    qed
  qed
qed

lemma items_world_facts:
  "context_ref (inst items_world) = Some 0"
  "0 < next_addr (heap items_world)"
  by (simp_all add: items_world_def run_defs)

text \<open>
  C5, as the code has it. \<^verbatim>\<open>executeAction\<close> emits Context-Change, once to every
  subscriber in subscription order, exactly when the \<^verbatim>\<open>JSON.stringify\<close> text of the
  context after the guard loop differs from the text of the clone taken before the
  action; when the two texts are equal it emits none.
\<close>

theorem context_change_iff_serialisation_differs:
  assumes "context_ref (inst w) = Some a" and "a < next_addr (heap w)"
  shows "\<exists>w'. executeAction act d w = Done w' \<and>
    filter (is_notify Context_Change) (new_calls w w') =
      (if JSON_stringify (Some (cells (heap w) a)) \<noteq> JSON_stringify (Some (cells (heap w') a))
       then map (\<lambda>s. Notify s Context_Change (stateID (inst w)) (Some (cells (heap w') a)))
              (subscribers (inst w))
       else [])"
proof -
  let ?w2 = "guarded act d a w"
  let ?w' = "if JSON_stringify (Some (cells (heap w) a)) \<noteq> JSON_stringify (Some (cells (heap ?w2) a))
             then notify Context_Change ?w2 else ?w2"
  have ex: "executeAction act d w = Done ?w'"
    by (rule executeAction_unfold[OF assms])
  obtain tr where tr: "trace ?w2 = trace w @ Action_call d # tr"
      "filter (is_notify Context_Change) tr = []"
    using check_guards_trace[of "next_addr (heap w)" a "acted act d a w" Context_Change]
    by auto
  have i2: "inst ?w2 = inst w" by simp
  have sc: "snapshot_context ?w2 = Some (cells (heap ?w2) a)"
    using assms(1) by (simp add: snapshot_context_def)
  have cw: "cells (heap ?w') a = cells (heap ?w2) a" by simp
  have "filter (is_notify Context_Change) (new_calls w ?w') =
      (if JSON_stringify (Some (cells (heap w) a)) \<noteq> JSON_stringify (Some (cells (heap ?w') a))
       then map (\<lambda>s. Notify s Context_Change (stateID (inst w)) (Some (cells (heap ?w') a)))
              (subscribers (inst w))
       else [])"
    unfolding cw
    by (simp add: new_calls_def notify_def tr sc)
  with ex show ?thesis by blast
qed

theorem context_change_iff_serialisation_differs_witness:
  "context_ref (inst items_world) = Some 0
   \<and> 0 < next_addr (heap items_world)
   \<and> JSON_stringify (Some (cells (heap items_world) 0))
       = Some (''{'' @ QuoteJSONString ''items'' @ '':[null],'' @ QuoteJSONString ''note''
                @ '':'' @ QuoteJSONString ''n'' @ ''}'')
   \<and> (\<exists>w'. executeAction blank_action JUndefined items_world = Done w'
        \<and> filter (is_notify Context_Change) (new_calls items_world w') =
            (if JSON_stringify (Some (cells (heap items_world) 0))
                  \<noteq> JSON_stringify (Some (cells (heap w') 0))
             then map (\<lambda>s. Notify s Context_Change (stateID (inst items_world))
                              (Some (cells (heap w') 0)))
                    (subscribers (inst items_world))
             else []))"
proof -
  note f = items_world_facts
  have j: "JSON_stringify (Some (cells (heap items_world) 0))
       = Some (''{'' @ QuoteJSONString ''items'' @ '':[null],'' @ QuoteJSONString ''note''
                @ '':'' @ QuoteJSONString ''n'' @ ''}'')"
    by (simp add: items_world_def run_defs)
  show ?thesis
    by (intro conjI f j context_change_iff_serialisation_differs[OF f, of blank_action JUndefined])
qed

text \<open>
  The comparison is not value equality of the fields. Storing \<^verbatim>\<open>undefined\<close> in an
  array that held \<^verbatim>\<open>null\<close> changes the field and emits nothing (both print as
  \<^verbatim>\<open>[null]\<close>); deleting a property and adding it again with the same value changes
  no field, yet emits Context-Change (the properties are printed in another order).
\<close>

theorem context_change_counterexample:
  "get_field (cells (heap (state_of (executeAction blank_action JUndefined items_world))) 0) ''items''
     \<noteq> get_field (cells (heap items_world) 0) ''items''
   \<and> filter (is_notify Context_Change)
        (trace (state_of (executeAction blank_action JUndefined items_world))) = []
   \<and> set (cells (heap (state_of (executeAction reinsert_action JUndefined items_world))) 0)
       = set (cells (heap items_world) 0)
   \<and> filter (is_notify Context_Change)
        (trace (state_of (executeAction reinsert_action JUndefined items_world)))
       = [Notify 7 Context_Change (Some ''idle'')
            (Some [(''note'', JStr ''n''), (''items'', JArr [JNull])])]"
  by (simp add: example_defs run_defs insert_commute)

text \<open>
  Two facts about \<^verbatim>\<open>send\<close>. The action receives the rest parameter itself, an
  array, also when one datum or none was sent. A target that is the empty string does
  not pass the test \<^verbatim>\<open>eventTarget && ...\<close>: the handler is treated as having no
  target.
\<close>

lemma send_hands_the_rest_array:
  assumes "stateObject (inst w) = Some so" and "on so = Some evs"
    and "map_of evs ev = Some h" and "action h = Some act" and "\<not> truthy (target h)"
  shows "send ev d w = executeAction act (JArr d) w"
  using assms table_get_own[of evs ev h inherited_handler]
  by (cases "executeAction act (JArr d) w") (simp_all add: send_def)

lemma empty_target_is_no_target:
  assumes "stateObject (inst w) = Some so" and "on so = Some evs"
    and "map_of evs ev = Some h" and "action h = None" and "target h = Some []"
  shows "send ev d w = Done w"
  using assms table_get_own[of evs ev h inherited_handler] by (simp add: send_def truthy_def)

text \<open>
  \<^verbatim>\<open>send\<close> on a state whose \<^verbatim>\<open>on\<close> map has a handler for the event, and what
  it does when that handler has an action and a target that the lookup in the table of
  states does not find: the action is executed to its end, with the array of the data,
  and then UnknownState is raised. The instance is as it was before the call, the
  context is as the execution of the action left it, and the calls made (other than
  guard calls) are the call of the action and the Context-Change notifications: no hook
  was called, no State-Change was emitted.
\<close>

lemma send_handler:
  assumes "stateObject (inst w) = Some so" and "on so = Some evs"
    and "table_get inherited_handler evs ev = Some h"
  shows "send ev d w =
           then_do (case action h of None \<Rightarrow> Done w | Some f \<Rightarrow> executeAction f (JArr d) w)
             (\<lambda>w1. if truthy (target h) then setState (target h) w1 else Done w1)"
  using assms by (simp add: send_def)

lemma send_action_persists_when_target_unknown:
  assumes "stateObject (inst w) = Some so" and "on so = Some evs"
    and "table_get inherited_handler evs ev = Some h" and "action h = Some act"
    and "truthy (target h)"
    and "table_get inherited_state (statesImplementation (inst w)) (prop_key (target h)) = None"
    and "context_ref (inst w) = Some a" and "a < next_addr (heap w)"
  shows "error_of (send ev d w) = Some UnknownState
     \<and> inst (state_of (send ev d w)) = inst w
     \<and> cells (heap (state_of (send ev d w))) a
         = acted_on (guards (inst w)) (Some act) (JArr d) (cells (heap w) a)
     \<and> filter (\<lambda>c. \<not> is_guard_call c) (new_calls w (state_of (send ev d w)))
         = action_calls (inst w) (Some act) (JArr d) (cells (heap w) a)
             (cells (heap (state_of (send ev d w))) a)"
  using handler_effect[OF assms(7,8,1) send_handler[OF assms(1-3)] refl, of d] assms(4-6)
  by simp

text \<open>
  C7. When the handler of the event has an action and a target that is not a key of the
  table of states, \<^verbatim>\<open>send\<close> is to run the action and then raise UnknownState, with
  the current state as it was and no hook run. The code does so for a target like
  \<^verbatim>\<open>nowhere\<close>, but not for every target that is not a key: the test
  \<^verbatim>\<open>!this.statesImplementation[stateID]\<close> lets a name pass that the table inherits.
  In the machine below, in state \<^verbatim>\<open>idle\<close>, the handler of \<^verbatim>\<open>stray\<close> has an
  action and the target \<^verbatim>\<open>constructor\<close>, which is not a key of the table;
  \<^verbatim>\<open>send('stray')\<close> runs the action, raises nothing, runs the exit hook of
  \<^verbatim>\<open>idle\<close>, makes \<^verbatim>\<open>constructor\<close> the current state and emits State-Change.
\<close>

theorem send_moves_to_an_inherited_target:
  "stateObject (inst timer_world) = Some timer_idle
   \<and> on timer_idle = Some timer_idle_events
   \<and> map_of timer_idle_events ''oops'' = Some timer_oops
   \<and> map_of timer_idle_events ''stray'' = Some timer_stray
   \<and> action timer_stray = Some timer_note_tried
   \<and> target timer_oops = Some ''nowhere''
   \<and> target timer_stray = Some ''constructor''
   \<and> map fst (statesImplementation (inst timer_world)) = [''idle'', ''busy'', ''done'']
   \<and> stateID (inst timer_world) = Some ''idle''
   \<and> error_of (send ''oops'' [] timer_world) = Some UnknownState
   \<and> stateID (inst (state_of (send ''oops'' [] timer_world))) = Some ''idle''
   \<and> error_of (send ''stray'' [] timer_world) = None
   \<and> stateID (inst (state_of (send ''stray'' [] timer_world))) = Some ''constructor''
   \<and> new_calls timer_world (state_of (send ''stray'' [] timer_world)) =
        [Action_call (JArr []),
         Notify 7 Context_Change (Some ''idle'')
           (Some [(''seen'', JStr []), (''left'', JStr []), (''note'', JStr ''tried'')]),
         Exit_hook (Some ''idle''),
         Notify 7 State_Change (Some ''constructor'')
           (Some [(''seen'', JStr []), (''left'', JStr ''idle''), (''note'', JStr ''tried'')])]"
  by (simp add: example_defs run_defs)

section \<open>Delayed transitions\<close>







section \<open>Subscriptions\<close>

text \<open>
  Every operation commutes with forgetting a subscriber, and an operation on an instance
  that does not hold \<open>f\<close> makes no call to \<open>f\<close>.
\<close>

lemma without_fields [simp]:
  "heap (without f w) = heap w"
  "timers (without f w) = timers w"
  "statesImplementation (inst (without f w)) = statesImplementation (inst w)"
  "initialState (inst (without f w)) = initialState (inst w)"
  "context_ref (inst (without f w)) = context_ref (inst w)"
  "guards (inst (without f w)) = guards (inst w)"
  "stateID (inst (without f w)) = stateID (inst w)"
  "stateObject (inst (without f w)) = stateObject (inst w)"
  "subscribers (inst (without f w)) = filter (\<lambda>s. s \<noteq> f) (subscribers (inst w))"
  "trace (without f w) = filter (\<lambda>c. \<not> to_subscriber f c) (trace w)"
  by (simp_all add: without_def)

lemma without_idem [simp]: "without f (without f w) = without f w"
  by (simp add: without_def)

lemma filter_Notify_to:
  "filter (\<lambda>c. \<not> to_subscriber f c) (map (\<lambda>s. Notify s ev sid c) subs)
     = map (\<lambda>s. Notify s ev sid c) (filter (\<lambda>s. s \<noteq> f) subs)"
  by (induction subs) simp_all

lemma notify_without: "notify ev (without f w) = without f (notify ev w)"
  by (simp add: notify_def without_def snapshot_context_def filter_Notify_to)

lemma call_hook_without:
  "\<not> to_subscriber f c \<Longrightarrow> call_hook h c (without f w) = map_outcome (without f) (call_hook h c w)"
  by (simp add: call_hook_def without_def split: option.splits)

lemma then_do_map_outcome:
  assumes "\<And>w. k (g w) = map_outcome g (k' w)"
  shows "then_do (map_outcome g r) k = map_outcome g (then_do r k')"
  using assms by (cases r) simp_all

lemma fold_setTimeout_without:
  "fold setTimeout ts (without f w) = without f (fold setTimeout ts w)"
  by (simp add: fold_setTimeout without_def)

lemma setState_without:
  "setState sid (without f w) = map_outcome (without f) (setState sid w)"
proof -
  have exit_step: "(if sid \<noteq> stateID (inst (without f w))
           then (case stateObject (inst (without f w)) of
                   None \<Rightarrow> Threw TypeError (without f w)
                 | Some old \<Rightarrow> call_hook (exit old) (Exit_hook (stateID (inst (without f w)))) (without f w))
           else Done (without f w))
        = map_outcome (without f) (if sid \<noteq> stateID (inst w)
           then (case stateObject (inst w) of
                   None \<Rightarrow> Threw TypeError w
                 | Some old \<Rightarrow> call_hook (exit old) (Exit_hook (stateID (inst w))) w)
           else Done w)"
    by (simp add: call_hook_without split: option.splits)
  have upd: "(without f w1)\<lparr>inst := (inst (without f w1))\<lparr>stateID := sid, stateObject := so\<rparr>\<rparr>
        = without f (w1\<lparr>inst := (inst w1)\<lparr>stateID := sid, stateObject := so\<rparr>\<rparr>)" for w1 so
    by (simp add: without_def)
  show ?thesis
    unfolding setState_def
    apply (simp only: without_fields exit_step[simplified without_fields] Let_def)
    apply (cases "table_get inherited_state (statesImplementation (inst w)) (prop_key sid) = None")
     apply simp
    apply (simp only: if_False)
    apply (rule then_do_map_outcome)
    apply (simp only: upd without_fields)
    apply (simp add: call_hook_without notify_without fold_setTimeout_without
              then_do_map_outcome split: option.splits)
    done
qed

lemma run_guards_without:
  "run_guards gs c a (without f w) = without f (run_guards gs c a w)"
proof (induction gs c a w rule: run_guards.induct)
  case (1 c a w)
  then show ?case by simp
next
  case (2 g p gs c a w)
  let ?live = "cells (heap w) a"
  let ?w1 = "w\<lparr>trace := trace w @ [Guard_call g ?live]\<rparr>"
  let ?w2 = "if \<not> p ?live
             then ?w1\<lparr>heap := set_cell (heap ?w1) a (assign ?live g (get_field (cells (heap ?w1) c) g))\<rparr>
             else ?w1"
  have eq: "(if \<not> p (cells (heap (without f w)) a)
             then (without f w)\<lparr>trace := trace (without f w) @ [Guard_call g (cells (heap (without f w)) a)],
                    heap := set_cell (heap (without f w)) a
                              (assign (cells (heap (without f w)) a) g
                                 (get_field (cells (heap (without f w)) c) g))\<rparr>
             else (without f w)\<lparr>trace := trace (without f w) @ [Guard_call g (cells (heap (without f w)) a)]\<rparr>)
            = without f ?w2"
    by (simp add: without_def)
  have "run_guards ((g, p) # gs) c a (without f w) = run_guards gs c a (without f ?w2)"
    unfolding eq[symmetric] by (simp add: Let_def)
  also have "\<dots> = without f (run_guards gs c a ?w2)"
    using 2[of ?live ?w1 ?w2] by simp
  also have "run_guards gs c a ?w2 = run_guards ((g, p) # gs) c a w"
    by (simp add: Let_def)
  finally show ?case .
qed

lemma check_guards_without:
  "check_guards c a (without f w) = without f (check_guards c a w)"
  by (simp add: check_guards_def run_guards_without split: option.splits)

lemma call_action_without:
  "call_action act d a (without f w) = without f (call_action act d a w)"
  by (simp add: call_action_def without_def)

lemma heap_update_without:
  "(without f w)\<lparr>heap := h\<rparr> = without f (w\<lparr>heap := h\<rparr>)"
  by (simp add: without_def)

lemma executeAction_without:
  "executeAction act d (without f w) = map_outcome (without f) (executeAction act d w)"
  by (simp add: executeAction_def Let_def heap_update_without call_action_without
        check_guards_without notify_without split: prod.splits option.splits)

lemma transition_without:
  "(if truthy tg then setState tg (without f w) else Done (without f w))
     = map_outcome (without f) (if truthy tg then setState tg w else Done w)"
  by (simp add: setState_without)

lemma then_transition_without:
  "then_do (map_outcome (without f) r) (\<lambda>w1. if truthy tg then setState tg w1 else Done w1)
     = map_outcome (without f) (then_do r (\<lambda>w1. if truthy tg then setState tg w1 else Done w1))"
  by (rule then_do_map_outcome) (simp add: setState_without)

lemma send_without:
  "send ev d (without f w) = map_outcome (without f) (send ev d w)"
proof -
  have act: "(case h of None \<Rightarrow> Done (without f w)
              | Some g \<Rightarrow> executeAction g (JArr d) (without f w))
      = map_outcome (without f) (case h of None \<Rightarrow> Done w | Some g \<Rightarrow> executeAction g (JArr d) w)"
    for h by (simp add: executeAction_without split: option.splits)
  show ?thesis
    by (simp add: send_def act then_transition_without split: option.splits)
qed

lemma start_without: "start (without f w) = map_outcome (without f) (start w)"
  by (simp add: start_def setState_without)

lemma timers_update_without:
  "(without f w)\<lparr>timers := ts\<rparr> = without f (w\<lparr>timers := ts\<rparr>)"
  by (simp add: without_def)

lemma fire_without: "fire i (without f w) = map_outcome (without f) (fire i w)"
proof -
  have act: "(case h of None \<Rightarrow> Done (without f w0)
              | Some g \<Rightarrow> executeAction g JUndefined (without f w0))
      = map_outcome (without f) (case h of None \<Rightarrow> Done w0 | Some g \<Rightarrow> executeAction g JUndefined w0)"
    for h w0 by (simp add: executeAction_without split: option.splits)
  show ?thesis
    by (simp add: fire_def Let_def timers_update_without act then_transition_without)
qed

lemma state_of_map_outcome [simp]: "state_of (map_outcome g r) = g (state_of r)"
  by (cases r) simp_all

lemma subscribe_without:
  "without f (subscribe g w) = without f (subscribe g (without f w))"
  by (simp add: subscribe_def without_def)

lemma unsubscribe_without:
  "without f (unsubscribe g w) = without f (unsubscribe g (without f w))"
proof -
  have "filter (\<lambda>x. x \<noteq> g \<and> x \<noteq> f) xs = filter (\<lambda>x. x \<noteq> f \<and> x \<noteq> g \<and> x \<noteq> f) xs" for xs :: "nat list"
    by (rule filter_cong) auto
  then show ?thesis by (simp add: unsubscribe_def without_def)
qed

lemma step_without: "without f (step x w) = without f (step x (without f w))"
  by (cases x)
     (simp_all add: start_without send_without fire_without
        subscribe_without[symmetric] unsubscribe_without[symmetric])

lemma run_without: "without f (run xs w) = without f (run xs (without f w))"
proof (induction xs arbitrary: w)
  case Nil
  then show ?case by (simp add: run_def)
next
  case (Cons x xs)
  have "without f (run (x # xs) w) = without f (run xs (step x w))"
    by (simp add: run_def)
  also have "\<dots> = without f (run xs (without f (step x w)))"
    by (rule Cons.IH)
  also have "\<dots> = without f (run xs (without f (step x (without f w))))"
    by (simp only: step_without[of f x w])
  also have "\<dots> = without f (run xs (step x (without f w)))"
    by (rule Cons.IH[symmetric])
  also have "\<dots> = without f (run (x # xs) (without f w))"
    by (simp add: run_def)
  finally show ?case .
qed

lemma quiet_refl [simp]: "quiet f w w"
  by (simp add: quiet_def)

lemma quiet_trans: "quiet f w w1 \<Longrightarrow> quiet f w1 w2 \<Longrightarrow> quiet f w w2"
  by (simp add: quiet_def)

lemma quiet_then_do:
  assumes "quiet f w (state_of r)"
    and "\<And>w1. f \<notin> set (subscribers (inst w1)) \<Longrightarrow> quiet f w1 (state_of (k w1))"
    and "f \<notin> set (subscribers (inst w))"
  shows "quiet f w (state_of (then_do r k))"
proof (cases r)
  case (Done w1)
  have "f \<notin> set (subscribers (inst w1))"
    using assms(1,3) Done by (simp add: quiet_def)
  from assms(2)[OF this] assms(1) Done show ?thesis
    by (auto intro: quiet_trans)
next
  case (Threw e w1)
  then show ?thesis using assms(1) by simp
qed

lemma filter_to_Notify:
  "f \<notin> set subs \<Longrightarrow> filter (to_subscriber f) (map (\<lambda>s. Notify s ev sid c) subs) = []"
  by (induction subs) auto

lemma filter_to_Guard [simp]:
  "filter (to_subscriber f) (map (\<lambda>i. Guard_call (k i) (l i)) ns) = []"
  by (induction ns) simp_all

lemma quiet_notify:
  "f \<notin> set (subscribers (inst w)) \<Longrightarrow> quiet f w (notify ev w)"
  by (simp add: quiet_def notify_def filter_to_Notify)

lemma quiet_call_hook:
  "\<not> to_subscriber f c \<Longrightarrow> quiet f w (state_of (call_hook h c w))"
  by (simp add: quiet_def call_hook_def split: option.splits)

lemma quiet_setState:
  assumes "f \<notin> set (subscribers (inst w))"
  shows "quiet f w (state_of (setState sid w))"
proof (cases "table_get inherited_state (statesImplementation (inst w)) (prop_key sid) = None")
  case True
  then show ?thesis by (simp add: setState_def)
next
  case False
  let ?exit = "if sid \<noteq> stateID (inst w)
           then (case stateObject (inst w) of
                   None \<Rightarrow> Threw TypeError w
                 | Some old \<Rightarrow> call_hook (exit old) (Exit_hook (stateID (inst w))) w)
           else Done w"
  have q1: "quiet f w (state_of ?exit)"
    by (simp add: quiet_call_hook split: option.splits)
  have q2: "quiet f w1 (state_of
      (let w2 = w1\<lparr>inst := (inst w1)
                        \<lparr>stateID := sid,
                         stateObject :=
                           table_get inherited_state (statesImplementation (inst w1)) (prop_key sid)\<rparr>\<rparr>
             in case stateObject (inst w2) of
                  None \<Rightarrow> Threw TypeError w2
                | Some new \<Rightarrow>
                    then_do (call_hook (entry new) (Entry_hook (stateID (inst w2))) w2)
                      (\<lambda>w3.
                         let w4 = notify State_Change w3
                         in Done (case after new of
                                    None \<Rightarrow> w4
                                  | Some afterEvents \<Rightarrow> fold setTimeout afterEvents w4))))"
    if s1: "f \<notin> set (subscribers (inst w1))" for w1
  proof -
    let ?w2 = "w1\<lparr>inst := (inst w1)
                        \<lparr>stateID := sid,
                         stateObject :=
                           table_get inherited_state (statesImplementation (inst w1)) (prop_key sid)\<rparr>\<rparr>"
    have a: "quiet f w1 ?w2" by (simp add: quiet_def)
    have s2: "f \<notin> set (subscribers (inst ?w2))" using s1 by simp
    have b: "quiet f ?w2 (state_of (then_do (call_hook (entry new) c ?w2)
                      (\<lambda>w3.
                         let w4 = notify State_Change w3
                         in Done (case after new of
                                    None \<Rightarrow> w4
                                  | Some afterEvents \<Rightarrow> fold setTimeout afterEvents w4))))"
      if "\<not> to_subscriber f c" for new c
    proof (rule quiet_then_do[OF quiet_call_hook[OF that] _ s2])
      fix w3 :: world assume s3: "f \<notin> set (subscribers (inst w3))"
      have "quiet f w3 (notify State_Change w3)" by (rule quiet_notify[OF s3])
      then show "quiet f w3 (state_of (let w4 = notify State_Change w3
                         in Done (case after new of
                                    None \<Rightarrow> w4
                                  | Some afterEvents \<Rightarrow> fold setTimeout afterEvents w4)))"
        by (simp add: Let_def fold_setTimeout quiet_def split: option.splits)
    qed
    show ?thesis
    proof (cases "stateObject (inst ?w2)")
      case None
      then show ?thesis using a by (simp add: Let_def)
    next
      case (Some new)
      have "quiet f ?w2 (state_of (then_do (call_hook (entry new) (Entry_hook (stateID (inst ?w2))) ?w2)
                      (\<lambda>w3.
                         let w4 = notify State_Change w3
                         in Done (case after new of
                                    None \<Rightarrow> w4
                                  | Some afterEvents \<Rightarrow> fold setTimeout afterEvents w4))))"
        by (rule b) simp
      with a have "quiet f w1 (state_of (then_do (call_hook (entry new) (Entry_hook (stateID (inst ?w2))) ?w2)
                      (\<lambda>w3.
                         let w4 = notify State_Change w3
                         in Done (case after new of
                                    None \<Rightarrow> w4
                                  | Some afterEvents \<Rightarrow> fold setTimeout afterEvents w4))))"
        by (rule quiet_trans)
      then show ?thesis using Some by (simp only: Let_def option.case)
    qed
  qed
  have "quiet f w (state_of (then_do ?exit
      (\<lambda>w1. let w2 = w1\<lparr>inst := (inst w1)
                        \<lparr>stateID := sid,
                         stateObject :=
                           table_get inherited_state (statesImplementation (inst w1)) (prop_key sid)\<rparr>\<rparr>
             in case stateObject (inst w2) of
                  None \<Rightarrow> Threw TypeError w2
                | Some new \<Rightarrow>
                    then_do (call_hook (entry new) (Entry_hook (stateID (inst w2))) w2)
                      (\<lambda>w3.
                         let w4 = notify State_Change w3
                         in Done (case after new of
                                    None \<Rightarrow> w4
                                  | Some afterEvents \<Rightarrow> fold setTimeout afterEvents w4)))))"
    by (rule quiet_then_do[OF q1 _ assms]) (rule q2)
  with False show ?thesis by (simp only: setState_def if_False)
qed

lemma executeAction_defined:
  assumes "context_ref (inst w) = Some a"
  shows "executeAction act d w =
       Done (if JSON_stringify (Some (cells (heap (guarded act d a w)) (next_addr (heap w))))
                  \<noteq> JSON_stringify (Some (cells (heap (guarded act d a w)) a))
             then notify Context_Change (guarded act d a w) else guarded act d a w)"
  using assms
  by (simp add: executeAction_def structuredClone_def alloc_def Let_def)

lemma quiet_executeAction:
  assumes "f \<notin> set (subscribers (inst w))"
  shows "quiet f w (state_of (executeAction act d w))"
proof (cases "context_ref (inst w)")
  case None
  then show ?thesis
    by (simp add: executeAction_def structuredClone_def quiet_def Let_def split: option.splits)
next
  case (Some a)
  let ?w2 = "guarded act d a w"
  have q: "quiet f w ?w2"
    by (simp add: quiet_def check_guards_def run_guards_trace split: option.splits)
  then have "f \<notin> set (subscribers (inst ?w2))" using assms by (simp add: quiet_def)
  from quiet_notify[OF this] q have "quiet f w (notify Context_Change ?w2)"
    by (blast intro: quiet_trans)
  with q show ?thesis by (simp add: executeAction_defined[OF Some])
qed

lemma quiet_transition:
  "f \<notin> set (subscribers (inst w)) \<Longrightarrow>
     quiet f w (state_of (if truthy tg then setState tg w else Done w))"
  by (simp add: quiet_setState)

lemma quiet_action:
  "f \<notin> set (subscribers (inst w)) \<Longrightarrow>
     quiet f w (state_of (case h of None \<Rightarrow> Done w | Some g \<Rightarrow> executeAction g d w))"
  by (cases h) (simp_all add: quiet_executeAction)

lemma quiet_send:
  assumes "f \<notin> set (subscribers (inst w))"
  shows "quiet f w (state_of (send ev d w))"
  using assms quiet_then_do[OF quiet_action[OF assms] quiet_transition assms]
  by (simp add: send_def split: option.splits)

lemma quiet_start:
  "f \<notin> set (subscribers (inst w)) \<Longrightarrow> quiet f w (state_of (start w))"
  by (simp add: start_def quiet_setState)

lemma quiet_fire:
  assumes "f \<notin> set (subscribers (inst w))"
  shows "quiet f w (state_of (fire i w))"
proof (cases "i < length (timers w)")
  case False
  then show ?thesis by (simp add: fire_def)
next
  case True
  let ?w0 = "w\<lparr>timers := take i (timers w) @ drop (Suc i) (timers w)\<rparr>"
  have s0: "f \<notin> set (subscribers (inst ?w0))" using assms by simp
  have q0: "quiet f w ?w0" by (simp add: quiet_def)
  from quiet_then_do[OF quiet_action[OF s0] quiet_transition s0]
  have "quiet f ?w0 (state_of (fire i w))"
    using True by (simp add: fire_def Let_def)
  with q0 show ?thesis by (rule quiet_trans)
qed

lemma quiet_step:
  assumes "f \<notin> set (subscribers (inst w))" and "x \<noteq> Subscribe f"
  shows "f \<notin> set (subscribers (inst (step x w)))
       \<and> filter (to_subscriber f) (trace (step x w)) = filter (to_subscriber f) (trace w)"
proof (cases x)
  case Start
  then show ?thesis using quiet_start[OF assms(1)] assms(1) by (simp add: quiet_def)
next
  case (Send ev d)
  then show ?thesis using quiet_send[OF assms(1)] assms(1) by (simp add: quiet_def)
next
  case (Fire i)
  then show ?thesis using quiet_fire[OF assms(1)] assms(1) by (simp add: quiet_def)
next
  case (Subscribe g)
  then show ?thesis using assms by (simp add: subscribe_def)
next
  case (Unsubscribe g)
  then show ?thesis using assms by (simp add: unsubscribe_def)
qed

lemma quiet_run:
  assumes "f \<notin> set (subscribers (inst w))" and "Subscribe f \<notin> set xs"
  shows "filter (to_subscriber f) (trace (run xs w)) = filter (to_subscriber f) (trace w)"
  using assms
proof (induction xs arbitrary: w)
  case Nil
  then show ?case by (simp add: run_def)
next
  case (Cons x xs)
  have x: "x \<noteq> Subscribe f" and xs: "Subscribe f \<notin> set xs"
    using Cons.prems(2) by auto
  from quiet_step[OF Cons.prems(1) x]
  have s: "f \<notin> set (subscribers (inst (step x w)))"
    and t: "filter (to_subscriber f) (trace (step x w)) = filter (to_subscriber f) (trace w)"
    by simp_all
  have "run (x # xs) w = run xs (step x w)" by (simp add: run_def)
  then show ?case using Cons.IH[OF s xs] t by simp
qed

text \<open>
  C6. After the unsubscribe closure of \<open>f\<close> has been called, and as long as \<open>f\<close> is not
  subscribed again, no operation calls \<open>f\<close>: the calls made to \<open>f\<close> are those made
  before. Everything else goes on as if \<open>f\<close> had stayed: apart from the subscriptions of
  \<open>f\<close> and the calls to \<open>f\<close>, the run after the unsubscription and the run without it end
  in the same world, with the same calls to every other subscriber in the same order.
\<close>

theorem unsubscribe_stops_only_that_subscriber:
  assumes "Subscribe f \<notin> set xs"
  shows "filter (to_subscriber f) (trace (run xs (unsubscribe f w)))
           = filter (to_subscriber f) (trace w)
       \<and> without f (run xs (unsubscribe f w)) = without f (run xs w)"
proof -
  have "f \<notin> set (subscribers (inst (unsubscribe f w)))"
    by (simp add: unsubscribe_def)
  from quiet_run[OF this assms]
  have a: "filter (to_subscriber f) (trace (run xs (unsubscribe f w)))
           = filter (to_subscriber f) (trace w)"
    by (simp add: unsubscribe_def)
  have u: "without f (unsubscribe f w) = without f w"
    by (simp add: unsubscribe_def without_def)
  have "without f (run xs (unsubscribe f w)) = without f (run xs (without f (unsubscribe f w)))"
    by (rule run_without)
  also have "\<dots> = without f (run xs (without f w))" by (simp only: u)
  also have "\<dots> = without f (run xs w)" by (rule run_without[symmetric])
  finally show ?thesis using a by simp
qed

theorem unsubscribe_stops_only_that_subscriber_witness:
  "Subscribe 7 \<notin> set [Start, Send ''edit'' [], Send ''edit'' [JStr ''A''], Send ''save'' []]
   \<and> filter (to_subscriber 7)
        (trace (run [Start, Send ''edit'' [], Send ''edit'' [JStr ''A''], Send ''save'' []]
                  (unsubscribe 7 (subscribe 8 example_world)))) = []
   \<and> without 7 (run [Start, Send ''edit'' [], Send ''edit'' [JStr ''A''], Send ''save'' []]
                  (unsubscribe 7 (subscribe 8 example_world)))
       = without 7 (run [Start, Send ''edit'' [], Send ''edit'' [JStr ''A''], Send ''save'' []]
                  (subscribe 8 example_world))
   \<and> length (received 8 State_Change
        (trace (run [Start, Send ''edit'' [], Send ''edit'' [JStr ''A''], Send ''save'' []]
                  (unsubscribe 7 (subscribe 8 example_world))))) = 3"
proof -
  let ?xs = "[Start, Send ''edit'' [], Send ''edit'' [JStr ''A''], Send ''save'' []]"
  have n: "Subscribe 7 \<notin> set ?xs" by simp
  have t0: "trace (subscribe 8 example_world) = []"
    by (simp add: example_defs run_defs)
  have r: "length (received 8 State_Change
        (trace (run ?xs (unsubscribe 7 (subscribe 8 example_world))))) = 3"
    by (simp add: run_def example_defs run_defs)
  from unsubscribe_stops_only_that_subscriber[OF n, of "subscribe 8 example_world"] t0 n r
  show ?thesis by simp
qed

section \<open>The configuration factory\<close>

text \<open>
  No operation of an instance changes an object other than its own context.
\<close>

lemma frame_refl [simp]: "frame w w"
  by (simp add: frame_def)

lemma frame_trans: "frame w w1 \<Longrightarrow> frame w1 w2 \<Longrightarrow> frame w w2"
  by (auto simp: frame_def)

lemma frame_then_do:
  assumes "frame w (state_of r)" and "\<And>w1. frame w w1 \<Longrightarrow> frame w1 (state_of (k w1))"
  shows "frame w (state_of (then_do r k))"
proof (cases r)
  case (Done w1)
  then show ?thesis using assms(1) assms(2)[of w1] by (auto intro: frame_trans)
next
  case (Threw e w1)
  then show ?thesis using assms(1) by simp
qed

lemma frame_notify: "frame w (notify ev w)"
  by (simp add: frame_def)

lemma frame_call_hook: "frame w (state_of (call_hook h c w))"
  by (auto simp: frame_def call_hook_def set_cell_def split: option.splits)

lemma frame_setState: "frame w (state_of (setState sid w))"
proof (cases "table_get inherited_state (statesImplementation (inst w)) (prop_key sid) = None")
  case True
  then show ?thesis by (simp add: setState_def)
next
  case False
  let ?exit = "if sid \<noteq> stateID (inst w)
           then (case stateObject (inst w) of
                   None \<Rightarrow> Threw TypeError w
                 | Some old \<Rightarrow> call_hook (exit old) (Exit_hook (stateID (inst w))) w)
           else Done w"
  have f1: "frame w (state_of ?exit)"
    by (simp add: frame_call_hook split: option.splits)
  have f2: "frame w1 (state_of
      (let w2 = w1\<lparr>inst := (inst w1)
                        \<lparr>stateID := sid,
                         stateObject :=
                           table_get inherited_state (statesImplementation (inst w1)) (prop_key sid)\<rparr>\<rparr>
             in case stateObject (inst w2) of
                  None \<Rightarrow> Threw TypeError w2
                | Some new \<Rightarrow>
                    then_do (call_hook (entry new) (Entry_hook (stateID (inst w2))) w2)
                      (\<lambda>w3.
                         let w4 = notify State_Change w3
                         in Done (case after new of
                                    None \<Rightarrow> w4
                                  | Some afterEvents \<Rightarrow> fold setTimeout afterEvents w4))))"
    if fr: "frame w w1" for w1
  proof -
    let ?w2 = "w1\<lparr>inst := (inst w1)
                        \<lparr>stateID := sid,
                         stateObject :=
                           table_get inherited_state (statesImplementation (inst w1)) (prop_key sid)\<rparr>\<rparr>"
    have "table_get inherited_state (statesImplementation (inst w1)) (prop_key sid) \<noteq> None"
      using False fr by (simp add: frame_def)
    then have a: "frame w1 ?w2" by (simp add: frame_def)
    have b: "frame ?w2 (state_of (then_do (call_hook (entry new) c ?w2)
                      (\<lambda>w3.
                         let w4 = notify State_Change w3
                         in Done (case after new of
                                    None \<Rightarrow> w4
                                  | Some afterEvents \<Rightarrow> fold setTimeout afterEvents w4))))"
      for new c
    proof (rule frame_then_do[OF frame_call_hook])
      fix w3 :: world
      assume "frame ?w2 w3"
      show "frame w3 (state_of (let w4 = notify State_Change w3
                         in Done (case after new of
                                    None \<Rightarrow> w4
                                  | Some afterEvents \<Rightarrow> fold setTimeout afterEvents w4)))"
        by (simp add: Let_def fold_setTimeout frame_def split: option.splits)
    qed
    show ?thesis
    proof (cases "stateObject (inst ?w2)")
      case None
      then show ?thesis using a by (simp add: Let_def)
    next
      case (Some new)
      from frame_trans[OF a b[of new "Entry_hook (stateID (inst ?w2))"]]
      show ?thesis using Some by (simp only: Let_def option.case)
    qed
  qed
  have "frame w (state_of (then_do ?exit
      (\<lambda>w1. let w2 = w1\<lparr>inst := (inst w1)
                        \<lparr>stateID := sid,
                         stateObject :=
                           table_get inherited_state (statesImplementation (inst w1)) (prop_key sid)\<rparr>\<rparr>
             in case stateObject (inst w2) of
                  None \<Rightarrow> Threw TypeError w2
                | Some new \<Rightarrow>
                    then_do (call_hook (entry new) (Entry_hook (stateID (inst w2))) w2)
                      (\<lambda>w3.
                         let w4 = notify State_Change w3
                         in Done (case after new of
                                    None \<Rightarrow> w4
                                  | Some afterEvents \<Rightarrow> fold setTimeout afterEvents w4)))))"
    by (rule frame_then_do[OF f1]) (rule f2)
  with False show ?thesis by (simp only: setState_def if_False)
qed

lemma frame_executeAction: "frame w (state_of (executeAction act d w))"
proof (cases "context_ref (inst w)")
  case None
  then show ?thesis
    by (simp add: executeAction_def structuredClone_def frame_def Let_def split: option.splits)
next
  case (Some a)
  let ?w2 = "guarded act d a w"
  have n: "next_addr (heap ?w2) = Suc (next_addr (heap w))"
    by (simp add: check_guards_def call_action_def set_cell_def alloc_def split: option.splits)
  have c: "cells (heap ?w2) b = cells (heap w) b" if "b \<noteq> a" "b < next_addr (heap w)" for b
    using that
    by (simp add: check_guards_def run_guards_other_cells call_action_cells alloc_def
          split: option.splits)
  have "frame w ?w2"
    using Some n c by (auto simp: frame_def)
  moreover have "frame w (notify Context_Change ?w2)"
    using Some n c by (auto simp: frame_def)
  ultimately show ?thesis by (simp add: executeAction_defined[OF Some])
qed

lemma frame_transition:
  "frame w (state_of (if truthy tg then setState tg w else Done w))"
  by (simp add: frame_setState)

lemma frame_action:
  "frame w (state_of (case h of None \<Rightarrow> Done w | Some g \<Rightarrow> executeAction g d w))"
  by (cases h) (simp_all add: frame_executeAction)

lemma frame_send: "frame w (state_of (send ev d w))"
  using frame_then_do[OF frame_action frame_transition]
  by (simp add: send_def split: option.splits)

lemma frame_fire: "frame w (state_of (fire i w))"
proof (cases "i < length (timers w)")
  case False
  then show ?thesis by (simp add: fire_def)
next
  case True
  let ?w0 = "w\<lparr>timers := take i (timers w) @ drop (Suc i) (timers w)\<rparr>"
  have "frame w ?w0" by (simp add: frame_def)
  moreover from frame_then_do[OF frame_action frame_transition]
  have "frame ?w0 (state_of (fire i w))"
    using True by (simp add: fire_def Let_def)
  ultimately show ?thesis by (rule frame_trans)
qed

lemma frame_step: "frame w (step x w)"
  by (cases x)
     (simp_all add: start_def frame_setState frame_send frame_fire,
      simp_all add: frame_def subscribe_def unsubscribe_def)

lemma frame_run: "frame w (run xs w)"
proof (induction xs arbitrary: w)
  case Nil
  then show ?case by (simp add: run_def)
next
  case (Cons x xs)
  have "run (x # xs) w = run xs (step x w)" by (simp add: run_def)
  then show ?case using frame_trans[OF frame_step Cons.IH] by simp
qed

text \<open>
  The instances that \<^verbatim>\<open>create\<close> makes from a configuration whose initial state is
  a key of its table have an allocated context object and a resolved current state
  definition, and they keep both whatever is done with them.
\<close>

lemma create_makes_a_well_formed_instance:
  assumes "create cfg None h = (i, h')"
    and "map_of (cfg_statesImplementation cfg) (cfg_initialState cfg) = Some so"
  shows "context_ref i = Some (next_addr h) \<and> next_addr h < next_addr h'
       \<and> stateObject i = Some so \<and> stateID i = Some (cfg_initialState cfg)"
  using assms
  by (auto simp: create_def Let_def MachineInstance_def structuredClone_def alloc_def
        table_get_def)

lemma run_keeps_the_instance_well_formed:
  assumes "context_ref (inst w) = Some a" and "a < next_addr (heap w)"
    and "stateObject (inst w) = Some so"
  shows "context_ref (inst (run xs w)) = Some a
       \<and> a < next_addr (heap (run xs w))
       \<and> stateObject (inst (run xs w)) \<noteq> None"
  using frame_run[of w xs] assms by (auto simp: frame_def)

text \<open>
  C9, as the code has it. \<^verbatim>\<open>create\<close> called without an argument takes the context
  and the initial state captured when the configuration was built. Called with an
  argument object it takes both from that object as they are: a property that is missing
  is \<^verbatim>\<open>undefined\<close> in the instance, the default is not used for it. A context that is
  given is cloned into an object that did not exist before: no object that existed is
  changed by \<^verbatim>\<open>create\<close>, an instance made later has another context object, and
  whatever is done with the new instance leaves the objects that existed before as they
  were.
\<close>

theorem create_defaults_apply_to_the_whole_argument:
  assumes "create cfg arg h = (i, h')"
  shows "(arg = None \<longrightarrow>
            initialState i = Some (cfg_initialState cfg)
            \<and> context_ref i = Some (next_addr h)
            \<and> cells h' (next_addr h) = cells h (cfg_context cfg))
     \<and> (\<forall>given. arg = Some given \<longrightarrow>
            initialState i = arg_initialState given
            \<and> (arg_context given = None \<longrightarrow> context_ref i = None)
            \<and> (\<forall>a. arg_context given = Some a \<longrightarrow>
                  context_ref i = Some (next_addr h)
                  \<and> cells h' (next_addr h) = cells h a))
     \<and> (\<forall>b<next_addr h. context_ref i \<noteq> Some b \<and> cells h' b = cells h b)
     \<and> (\<forall>cfg2 arg2 i2 h2 a.
            create cfg2 arg2 h' = (i2, h2) \<and> context_ref i = Some a
            \<longrightarrow> context_ref i2 \<noteq> Some a)
     \<and> (\<forall>xs b. b < next_addr h \<longrightarrow> cells (heap (run xs (boot (i, h')))) b = cells h b)"
proof -
  let ?a = "case arg of
              None \<Rightarrow> \<lparr>arg_context = Some (cfg_context cfg),
                        arg_initialState = Some (cfg_initialState cfg)\<rparr>
            | Some given \<Rightarrow> given"
  have i: "i = MachineInstance (cfg_statesImplementation cfg) (arg_initialState ?a)
                 (fst (structuredClone h (arg_context ?a))) None"
    and h': "h' = snd (structuredClone h (arg_context ?a))"
    using assms by (auto simp: create_def Let_def split: prod.splits)
  have ctx: "context_ref i = (case arg_context ?a of None \<Rightarrow> None | Some a \<Rightarrow> Some (next_addr h))"
    by (simp add: i MachineInstance_def structuredClone_def alloc_def split: option.splits)
  have init: "initialState i = arg_initialState ?a"
    by (simp add: i MachineInstance_def)
  have copy: "cells h' (next_addr h) = cells h a" if "arg_context ?a = Some a" for a
    using that by (simp add: h' structuredClone_def alloc_def)
  have old: "cells h' b = cells h b" if "b < next_addr h" for b
    using that by (simp add: h' structuredClone_def alloc_def split: option.splits)
  have mono: "next_addr h \<le> next_addr h'"
    by (simp add: h' structuredClone_def alloc_def split: option.splits)
  have grows: "next_addr h < next_addr h'" if "context_ref i = Some a" for a
    using that ctx by (auto simp: h' structuredClone_def alloc_def split: option.splits)
  have fresh: "context_ref i \<noteq> Some b" if "b < next_addr h" for b
    using that ctx by (auto split: option.splits)
  have c1: "arg = None \<longrightarrow>
            initialState i = Some (cfg_initialState cfg)
            \<and> context_ref i = Some (next_addr h)
            \<and> cells h' (next_addr h) = cells h (cfg_context cfg)"
    using ctx init copy[of "cfg_context cfg"] by simp
  have c2: "\<forall>given. arg = Some given \<longrightarrow>
            initialState i = arg_initialState given
            \<and> (arg_context given = None \<longrightarrow> context_ref i = None)
            \<and> (\<forall>a. arg_context given = Some a \<longrightarrow>
                  context_ref i = Some (next_addr h)
                  \<and> cells h' (next_addr h) = cells h a)"
    using ctx init copy by auto
  have c3: "\<forall>b<next_addr h. context_ref i \<noteq> Some b \<and> cells h' b = cells h b"
    using fresh old by blast
  have c4: "\<forall>cfg2 arg2 i2 h2 a.
            create cfg2 arg2 h' = (i2, h2) \<and> context_ref i = Some a
            \<longrightarrow> context_ref i2 \<noteq> Some a"
  proof (intro allI impI)
    fix cfg2 arg2 i2 h2 a
    assume p: "create cfg2 arg2 h' = (i2, h2) \<and> context_ref i = Some a"
    then have a: "a = next_addr h" using ctx by (auto split: option.splits)
    have "context_ref i2 = None \<or> context_ref i2 = Some (next_addr h')"
      using p
      by (auto simp: create_def Let_def MachineInstance_def structuredClone_def alloc_def
            split: prod.splits option.splits)
    then show "context_ref i2 \<noteq> Some a"
      using grows[of a] p a by auto
  qed
  have c5: "\<forall>xs b. b < next_addr h \<longrightarrow> cells (heap (run xs (boot (i, h')))) b = cells h b"
  proof (intro allI impI)
    fix xs b assume b: "b < next_addr h"
    have "frame (boot (i, h')) (run xs (boot (i, h')))" by (rule frame_run)
    moreover have "b < next_addr (heap (boot (i, h')))"
      using b mono by (simp add: boot_def)
    moreover have "Some b \<noteq> context_ref (inst (boot (i, h')))"
      using fresh[OF b] by (auto simp: boot_def)
    ultimately have "cells (heap (run xs (boot (i, h')))) b = cells (heap (boot (i, h'))) b"
      unfolding frame_def by blast
    then show "cells (heap (run xs (boot (i, h')))) b = cells h b"
      using old[OF b] by (simp add: boot_def)
  qed
  from c1 c2 c3 c4 c5 show ?thesis by blast
qed

theorem create_defaults_apply_to_the_whole_argument_witness:
  "initialState (fst (create example_config None example_store)) = Some ''reading''
   \<and> context_ref (fst (create example_config None example_store)) = Some 1
   \<and> cells (snd (create example_config None example_store)) 1 = cells example_store 0
   \<and> cells (snd (create example_config None example_store)) 0 = cells example_store 0
   \<and> cells (heap (run [Start, Send ''edit'' [], Send ''edit'' [JStr ''A'']]
          (boot (create example_config None example_store)))) 0
       = [(''committed'', JStr []), (''value'', JStr [])]"
proof -
  let ?i = "fst (create example_config None example_store)"
  let ?h = "snd (create example_config None example_store)"
  have c: "create example_config None example_store = (?i, ?h)" by simp
  note t = create_defaults_apply_to_the_whole_argument[OF c]
  have n: "next_addr example_store = 1" "cfg_initialState example_config = ''reading''"
    "cfg_context example_config = 0"
    by (simp_all add: example_store_def example_config_def)
  have z: "(0::nat) < next_addr example_store" by (simp add: n)
  from t have "initialState ?i = Some ''reading''" "context_ref ?i = Some 1"
    "cells ?h 1 = cells example_store 0"
    by (simp_all add: n)
  moreover from t z have "cells ?h 0 = cells example_store 0" by blast
  moreover from t z have "cells (heap (run [Start, Send ''edit'' [], Send ''edit'' [JStr ''A'']]
          (boot (?i, ?h)))) 0 = cells example_store 0" by blast
  ultimately show ?thesis by (simp add: example_store_def)
qed

text \<open>
  With only \<^verbatim>\<open>initialState\<close> supplied the instance has no context; with only
  \<^verbatim>\<open>context\<close> supplied it has no initial state.
\<close>

theorem create_partial_argument_counterexample:
  "context_ref (fst (create example_config
       (Some \<lparr>arg_context = None, arg_initialState = Some ''editing''\<rparr>) example_store)) = None
   \<and> initialState (fst (create example_config
       (Some \<lparr>arg_context = Some 0, arg_initialState = None\<rparr>) example_store)) = None
   \<and> initialState (fst (create example_config
       (Some \<lparr>arg_context = Some 0, arg_initialState = None\<rparr>) example_store))
       \<noteq> Some (cfg_initialState example_config)"
  by (simp add: example_defs run_defs)

section \<open>The example of the specification\<close>

text \<open>
  C1, as the code has it. In the example, \<^verbatim>\<open>start(); send('edit'); send('edit', 'A');
  send('save')\<close> ends in state \<^verbatim>\<open>reading\<close> with \<^verbatim>\<open>committed\<close> equal to
  \<^verbatim>\<open>value\<close>, both holding the data the \<^verbatim>\<open>edit\<close> action was called with. A
  subscriber registered before \<^verbatim>\<open>start()\<close> receives three State-Change and two
  Context-Change notifications; one registered after \<^verbatim>\<open>start()\<close> receives two and two.
\<close>

theorem example_sequence_outcome:
  "snd (getSnapshot example_run) = Some ''reading''
   \<and> (\<exists>fs. fst (getSnapshot example_run) = Some fs
          \<and> get_field fs ''committed'' = get_field fs ''value''
          \<and> Action_call (get_field fs ''value'') \<in> set (trace example_run))
   \<and> length (received 7 State_Change (trace example_run)) = 3
   \<and> length (received 7 Context_Change (trace example_run)) = 2
   \<and> getSnapshot example_run_late = getSnapshot example_run
   \<and> length (received 7 State_Change (trace example_run_late)) = 2
   \<and> length (received 7 Context_Change (trace example_run_late)) = 2"
  by (simp add: example_defs run_defs)

text \<open>
  The numbers of notifications are not two and one, and the snapshot is not
  \<^verbatim>\<open>{ state: 'reading', context: { committed: 'A', value: 'A' } }\<close>: \<^verbatim>\<open>send\<close> hands
  its rest parameter, the array \<^verbatim>\<open>['A']\<close>, to the action.
\<close>

theorem example_sequence_counterexample:
  "length (received 7 State_Change (trace example_run)) = 3
   \<and> length (received 7 Context_Change (trace example_run)) = 2
   \<and> length (received 7 State_Change (trace example_run_late)) = 2
   \<and> length (received 7 Context_Change (trace example_run_late)) = 2
   \<and> \<not> (getSnapshot example_run =
           (Some [(''committed'', JStr ''A''), (''value'', JStr ''A'')], Some ''reading'')
         \<and> length (received 7 State_Change (trace example_run)) = 2
         \<and> length (received 7 Context_Change (trace example_run)) = 1)
   \<and> \<not> (getSnapshot example_run_late =
           (Some [(''committed'', JStr ''A''), (''value'', JStr ''A'')], Some ''reading'')
         \<and> length (received 7 State_Change (trace example_run_late)) = 2
         \<and> length (received 7 Context_Change (trace example_run_late)) = 1)"
  by (simp add: example_defs run_defs)

end
